theory Spec2Isabelle
  imports Main "HOL-Library.Word"
begin

section \<open>TcpSocket: a length-prefixed message protocol over a byte stream\<close>

text \<open>
  A shallow embedding of \<open>src/SFML/Network/TcpSocket.cpp\<close>. Every member function of
  the source that the properties below talk about is a HOL function of the same name
  (the overloads of \<open>send\<close> and \<open>receive\<close> that take a Packet are \<open>send_packet\<close> and
  \<open>receive_packet\<close>). The object state is passed in and returned. Sizes
  (\<open>std::size_t\<close>) are natural numbers; the two places where the source narrows or
  wraps them (the cast to \<open>std::uint32_t\<close> and the unsigned subtraction in the Packet
  overload of send) are written out.
\<close>

subsection \<open>Status codes and the operating system\<close>

type_synonym byte = "8 word"

text \<open>
  Modelled from the spec: the enumeration \<open>Socket::Status\<close> is declared in Socket.hpp,
  which is not among the sources. The spec's status vocabulary is Done, Partial,
  NotReady, Disconnected, Error.
\<close>

datatype Status = Done | NotReady | Partial | Disconnected | Error

text \<open>
  The cause of a failed system call, as far as the status translation tells causes
  apart: the call would block (or is in progress), the connection is gone, anything else.
\<close>

datatype os_error = WouldBlock | ConnectionLost | OtherFailure

text \<open>
  Modelled from the spec: \<open>priv::SocketImpl::getErrorStatus\<close> is defined in
  SocketImpl.cpp, which is not among the sources. The spec: a negative/error return is
  translated to NotReady, Disconnected, or Error depending on the underlying cause.
\<close>

fun getErrorStatus :: "os_error \<Rightarrow> Status" where
  "getErrorStatus WouldBlock = NotReady"
| "getErrorStatus ConnectionLost = Disconnected"
| "getErrorStatus OtherFailure = Error"

text \<open>
  The transport is the environment of the code: a scripted (mock) stream endpoint. What
  the \<open>i\<close>-th call of \<open>recv\<close> and of \<open>::send\<close> does is fixed by an oracle, so that a
  statement quantified over the oracles holds for every behaviour of the transport.
  \<open>RecvData k\<close>: the call succeeds and hands over at most \<open>k\<close> of the bytes that are
  waiting (none if nothing is waiting or nothing is asked for: the call returns 0).
  \<open>SendAccept k\<close>: the call succeeds and takes at most \<open>k\<close> bytes, and at least one of a
  non-empty request. \<open>RecvFail e\<close>, \<open>SendFail e\<close>: the call returns -1 with the cause \<open>e\<close>.
\<close>

datatype recv_event = RecvData nat | RecvFail os_error
datatype send_event = SendAccept nat | SendFail os_error

text \<open>The outcome of \<open>select\<close> on the handle: ready (> 0), timed out (0), failed (-1).\<close>

datatype select_event = SelectReady | SelectTimeout | SelectFail os_error

record timeval =
  tv_sec :: int
  tv_usec :: int

datatype syscall =
    SysConnect nat nat
  | SysSelect timeval
  | SysGetPeerName
  | SysSetBlocking bool

record transport =
  inbound :: "byte list"
  outbound :: "byte list"
  recv_oracle :: "nat \<Rightarrow> recv_event"
  send_oracle :: "nat \<Rightarrow> send_event"
  recv_calls :: nat
  send_calls :: nat
  errno :: os_error
  connect_oracle :: "os_error option"
  select_oracle :: select_event
  getpeername_oracle :: "os_error + nat"
  trace :: "syscall list"

text \<open>
  One call never moves more than \<open>INT_MAX\<close> bytes (Linux caps a transfer at 0x7ffff000
  bytes), so the \<open>static_cast<int>\<close> of the source keeps the returned count.
\<close>

definition INT_MAX :: nat where
  "INT_MAX = 2147483647"

text \<open>
  \<open>recv(handle, data, sz, flags)\<close>: the return value, the bytes written to the front of
  the buffer, and the transport afterwards.
\<close>

definition recv :: "transport \<Rightarrow> nat \<Rightarrow> int \<times> byte list \<times> transport" where
  "recv t sz =
     (case recv_oracle t (recv_calls t) of
        RecvData k \<Rightarrow>
          (let n = min (min k sz) (min (length (inbound t)) INT_MAX)
           in (int n, take n (inbound t),
               t\<lparr>inbound := drop n (inbound t), recv_calls := Suc (recv_calls t)\<rparr>))
      | RecvFail e \<Rightarrow> (- 1, [], t\<lparr>recv_calls := Suc (recv_calls t), errno := e\<rparr>))"

text \<open>
  \<open>::send(handle, data, len, flags)\<close> where \<open>bytes\<close> is the memory from \<open>data\<close> on:
  the return value and the transport afterwards.
\<close>

definition sendRaw :: "transport \<Rightarrow> byte list \<Rightarrow> nat \<Rightarrow> int \<times> transport" where
  "sendRaw t bytes len =
     (case send_oracle t (send_calls t) of
        SendAccept k \<Rightarrow>
          (let n = min (max 1 k) (min len INT_MAX)
           in (int n, t\<lparr>outbound := outbound t @ take n bytes, send_calls := Suc (send_calls t)\<rparr>))
      | SendFail e \<Rightarrow> (- 1, t\<lparr>send_calls := Suc (send_calls t), errno := e\<rparr>))"

subsection \<open>The socket and the packet\<close>

text \<open>
  Modelled from the spec: \<open>PendingPacket\<close> is declared in TcpSocket.hpp, which is not
  among the sources. The spec's \<open>prefixValue\<close> (the 4 raw bytes of the length prefix as
  received so far), \<open>prefixBytesReceived\<close> and \<open>payloadBuffer\<close>. \<open>Size\<close> is the
  \<open>std::uint32_t\<close> as the 4 bytes of its memory, in address order: the source fills it
  through a \<open>char*\<close> and reads it through \<open>ntohl\<close>.
\<close>

record PendingPacket =
  Size :: "byte list"
  SizeReceived :: nat
  Data :: "byte list"

definition PendingPacket_init :: PendingPacket where
  "PendingPacket_init = \<lparr>Size = [0, 0, 0, 0], SizeReceived = 0, Data = []\<rparr>"

text \<open>
  Modelled from the spec: the class \<open>Packet\<close> (Packet.hpp/.cpp) is not among the
  sources. The spec's Message: a payload, \<open>onSend\<close> giving the payload and its length,
  \<open>onReceive\<close> ingesting a received payload, and a resume offset used by the send path.
\<close>

record Packet =
  m_data :: "byte list"
  m_sendPos :: nat

definition clear :: "Packet \<Rightarrow> Packet" where
  "clear packet = packet\<lparr>m_data := []\<rparr>"

definition onSend :: "Packet \<Rightarrow> byte list \<times> nat" where
  "onSend packet = (m_data packet, length (m_data packet))"

definition onReceive :: "Packet \<Rightarrow> byte list \<Rightarrow> nat \<Rightarrow> Packet" where
  "onReceive packet bytes sz = packet\<lparr>m_data := m_data packet @ take sz bytes\<rparr>"

record TcpSocket =
  m_socketValid :: bool
  m_isBlocking :: bool
  m_pendingPacket :: PendingPacket
  m_blockToSendBuffer :: "byte list"
  os :: transport

text \<open>
  Modelled from the spec: \<open>Socket::isBlocking\<close>, \<open>setBlocking\<close>, \<open>create\<close> and \<open>close\<close>
  (Socket.cpp) are not among the sources. The blocking mode is a boolean of the
  connection; create and close allocate and release the handle (\<open>m_socketValid\<close>: the
  handle differs from \<open>invalidSocket()\<close>) and leave the mode alone.
\<close>

definition isBlocking :: "TcpSocket \<Rightarrow> bool" where
  "isBlocking s = m_isBlocking s"

definition setBlocking :: "bool \<Rightarrow> TcpSocket \<Rightarrow> TcpSocket" where
  "setBlocking blocking s =
     s\<lparr>m_isBlocking := blocking, os := (os s)\<lparr>trace := trace (os s) @ [SysSetBlocking blocking]\<rparr>\<rparr>"

definition close :: "TcpSocket \<Rightarrow> TcpSocket" where
  "close s = s\<lparr>m_socketValid := False\<rparr>"

definition create :: "TcpSocket \<Rightarrow> TcpSocket" where
  "create s = s\<lparr>m_socketValid := True\<rparr>"

text \<open>
  \<open>htonl\<close> followed by \<open>memcpy\<close> of the 4 bytes: the big-endian bytes of a 32-bit value.
  \<open>ntohl\<close> of the 4 bytes of \<open>Size\<close>: the value they spell in big-endian order.
\<close>

definition htonl :: "nat \<Rightarrow> byte list" where
  "htonl v = [of_nat (v div 16777216), of_nat (v div 65536), of_nat (v div 256), of_nat v]"

definition ntohl :: "byte list \<Rightarrow> nat" where
  "ntohl bs = foldl (\<lambda>acc b. acc * 256 + unat b) 0 (take 4 bs)"


subsection \<open>Connection lifecycle\<close>

text \<open>The system calls of connect: \<open>::connect\<close>, \<open>select\<close> and \<open>getpeername\<close>.\<close>

definition connectRaw :: "transport \<Rightarrow> nat \<Rightarrow> nat \<Rightarrow> int \<times> transport" where
  "connectRaw t address port =
     (let t1 = t\<lparr>trace := trace t @ [SysConnect address port]\<rparr>
      in case connect_oracle t of
           None \<Rightarrow> (0, t1)
         | Some e \<Rightarrow> (- 1, t1\<lparr>errno := e\<rparr>))"

definition select :: "transport \<Rightarrow> timeval \<Rightarrow> int \<times> transport" where
  "select t time =
     (let t1 = t\<lparr>trace := trace t @ [SysSelect time]\<rparr>
      in case select_oracle t of
           SelectReady \<Rightarrow> (1, t1)
         | SelectTimeout \<Rightarrow> (0, t1)
         | SelectFail e \<Rightarrow> (- 1, t1\<lparr>errno := e\<rparr>))"

definition getpeername :: "transport \<Rightarrow> int \<times> nat \<times> transport" where
  "getpeername t =
     (let t1 = t\<lparr>trace := trace t @ [SysGetPeerName]\<rparr>
      in case getpeername_oracle t of
           Inr address \<Rightarrow> (0, address, t1)
         | Inl e \<Rightarrow> (- 1, 0, t1\<lparr>errno := e\<rparr>))"

definition getRemoteAddress :: "TcpSocket \<Rightarrow> nat option \<times> TcpSocket" where
  "getRemoteAddress s =
     (if m_socketValid s then
        (case getpeername (os s) of (r, address, t) \<Rightarrow>
           if r \<noteq> - 1 then (Some address, s\<lparr>os := t\<rparr>) else (None, s\<lparr>os := t\<rparr>))
      else (None, s))"

definition disconnect :: "TcpSocket \<Rightarrow> TcpSocket" where
  "disconnect s = (close s)\<lparr>m_pendingPacket := PendingPacket_init\<rparr>"

text \<open>
  \<open>TcpSocket::connect\<close>. The timeout is \<open>Time::asMicroseconds()\<close>; on the branch that
  computes the \<open>timeval\<close> it is positive, where the \<open>/\<close> and \<open>%\<close> of C++ agree with
  \<open>div\<close> and \<open>mod\<close>.
\<close>

definition connect :: "TcpSocket \<Rightarrow> nat \<Rightarrow> nat \<Rightarrow> int \<Rightarrow> Status \<times> TcpSocket" where
  "connect s0 remoteAddress remotePort timeout =
     (let s = create (disconnect s0) in
      if timeout \<le> 0 then
        (case connectRaw (os s) remoteAddress remotePort of (r, t) \<Rightarrow>
           if r = - 1 then (getErrorStatus (errno t), s\<lparr>os := t\<rparr>)
           else (Done, s\<lparr>os := t\<rparr>))
      else
        (let blocking = isBlocking s;
             s1 = (if blocking then setBlocking False s else s)
         in case connectRaw (os s1) remoteAddress remotePort of (r, t) \<Rightarrow>
           let s2 = s1\<lparr>os := t\<rparr> in
           if r \<ge> 0 then (Done, setBlocking blocking s2)
           else
             (let status = getErrorStatus (errno (os s2)) in
              if \<not> blocking then (status, s2)
              else
                (let (status', s5) =
                   (if status = NotReady then
                      (let time = \<lparr>tv_sec = timeout div 1000000, tv_usec = timeout mod 1000000\<rparr>
                       in case select (os s2) time of (n, t') \<Rightarrow>
                         let s3 = s2\<lparr>os := t'\<rparr> in
                         if n > 0 then
                           (case getRemoteAddress s3 of (address, s4) \<Rightarrow>
                              if address \<noteq> None then (Done, s4)
                              else (getErrorStatus (errno (os s4)), s4))
                         else (getErrorStatus (errno (os s3)), s3))
                    else (status, s2))
                 in (status', setBlocking True s5)))))"

subsection \<open>Raw transfer primitives\<close>

text \<open>
  A pointer argument is null or points to memory. For \<open>receive\<close> only that matters: what
  \<open>recv\<close> wrote is returned beside the count.
\<close>

datatype pointer = Null | NonNull

text \<open>
  \<open>TcpSocket::receive(void* data, std::size_t size, std::size_t& received)\<close>: the status,
  \<open>received\<close>, the bytes now at the front of \<open>data\<close>, and the transport.
\<close>

definition receive :: "pointer \<Rightarrow> nat \<Rightarrow> transport \<Rightarrow> Status \<times> nat \<times> byte list \<times> transport" where
  "receive data sz t =
     (if data = Null then (Error, 0, [], t)
      else
        (case recv t sz of (sizeReceived, bytes, t') \<Rightarrow>
           if sizeReceived > 0 then (Done, nat sizeReceived, bytes, t')
           else if sizeReceived = 0 then (Disconnected, 0, [], t')
           else (getErrorStatus (errno t'), 0, [], t')))"

text \<open>
  The loop of \<open>TcpSocket::send(const std::byte* data, std::size_t size, std::size_t& sent)\<close>,
  from the current value of \<open>sent\<close>.
\<close>

function send_loop :: "byte list \<Rightarrow> nat \<Rightarrow> nat \<Rightarrow> transport \<Rightarrow> Status \<times> nat \<times> transport" where
  "send_loop data sz sent t =
     (if sent < sz then
        (case sendRaw t (drop sent data) (sz - sent) of (result, t') \<Rightarrow>
           if result < 0 then
             (let status = getErrorStatus (errno t')
              in if status = NotReady \<and> sent \<noteq> 0 then (Partial, sent, t')
                 else (status, sent, t'))
           else send_loop data sz (sent + nat result) t')
      else (Done, sent, t))"
  apply pat_completeness
  apply (elim Pair_inject)
  apply hypsubst
  apply (rule refl)
  done
termination
proof (relation "measure (\<lambda>(data, sz, sent, t). sz - sent)")
  show "wf (measure (\<lambda>(data :: byte list, sz, sent, t :: transport). sz - sent))"
    by simp
next
  fix data sz sent t x y
  assume lt: "sent < sz" and r: "(x, y) = sendRaw t (drop sent data) (sz - sent)"
    and nn: "\<not> x < 0"
  have "0 < x"
  proof (cases "send_oracle t (send_calls t)")
    case (SendAccept k)
    with lt r show ?thesis by (auto simp: sendRaw_def Let_def INT_MAX_def)
  next
    case (SendFail e)
    with r nn show ?thesis by (auto simp: sendRaw_def)
  qed
  with lt show "((data, sz, sent + nat x, y), data, sz, sent, t)
      \<in> measure (\<lambda>(data, sz, sent, t). sz - sent)"
    by simp
qed

declare send_loop.simps [simp del]

text \<open>The memory read by a call is out of the buffer it was given.\<close>

datatype fault = OutOfBounds

text \<open>
  \<open>TcpSocket::send(const std::byte* data, std::size_t size, std::size_t& sent)\<close>. The
  buffer is \<open>None\<close> for a null pointer, else the bytes from \<open>data\<close> to the end of the
  memory it points into; a \<open>size\<close> beyond them makes \<open>::send\<close> read out of bounds. The
  early return leaves \<open>sent\<close> as it was.
\<close>

definition send :: "byte list option \<Rightarrow> nat \<Rightarrow> nat \<Rightarrow> transport \<Rightarrow> fault + Status \<times> nat \<times> transport" where
  "send data sz sent t =
     (case data of
        None \<Rightarrow> Inr (Error, sent, t)
      | Some buf \<Rightarrow>
          if sz = 0 then Inr (Error, sent, t)
          else if length buf < sz then Inl OutOfBounds
          else Inr (send_loop buf sz 0 t))"

subsection \<open>Message framing\<close>

text \<open>
  \<open>TcpSocket::send(Packet& packet)\<close>. The block is the 4 bytes of
  \<open>htonl(static_cast<std::uint32_t>(size))\<close> followed by the \<open>size\<close> bytes of the data.
  The length passed on is the \<open>std::size_t\<close> difference of the block's size and
  \<open>m_sendPos\<close>, which wraps modulo \<open>2^64\<close>. The local \<open>sent\<close> is not initialised in the
  source and is read only after a Partial result, which assigns it; it starts as 0 here.
\<close>

definition send_packet :: "Packet \<Rightarrow> TcpSocket \<Rightarrow> fault + Status \<times> Packet \<times> TcpSocket" where
  "send_packet packet s =
     (case onSend packet of (data, sz) \<Rightarrow>
        let packetSize = htonl (sz mod 4294967296);
            block = packetSize @ take sz data;
            s1 = s\<lparr>m_blockToSendBuffer := block\<rparr>;
            len = nat ((int (length block) - int (m_sendPos packet)) mod 18446744073709551616)
        in case send (Some (drop (m_sendPos packet) block)) len 0 (os s1) of
             Inl f \<Rightarrow> Inl f
           | Inr (status, sent, t) \<Rightarrow>
               Inr (status,
                    (if status = Partial then packet\<lparr>m_sendPos := m_sendPos packet + sent\<rparr>
                     else if status = Done then packet\<lparr>m_sendPos := 0\<rparr>
                     else packet),
                    s1\<lparr>os := t\<rparr>))"

text \<open>Writing \<open>bytes\<close> into the memory \<open>mem\<close> from the offset \<open>off\<close> on.\<close>

definition write_bytes :: "byte list \<Rightarrow> nat \<Rightarrow> byte list \<Rightarrow> byte list" where
  "write_bytes mem off bytes = take off mem @ bytes @ drop (off + length bytes) mem"

text \<open>
  The first loop of \<open>TcpSocket::receive(Packet& packet)\<close>: until the 4 bytes of the size
  are there. \<open>recv\<close> writes into the memory of \<open>m_pendingPacket.Size\<close>, from the offset
  \<open>SizeReceived\<close> on.
\<close>

function receive_size_loop :: "PendingPacket \<Rightarrow> transport \<Rightarrow> Status \<times> PendingPacket \<times> transport" where
  "receive_size_loop p t =
     (if SizeReceived p < 4 then
        (case receive NonNull (4 - SizeReceived p) t of (status, received, bytes, t') \<Rightarrow>
           let p' = p\<lparr>Size := write_bytes (Size p) (SizeReceived p) bytes,
                      SizeReceived := SizeReceived p + received\<rparr>
           in if status \<noteq> Done then (status, p', t')
              else receive_size_loop p' t')
      else (Done, p, t))"
  apply pat_completeness
  apply (elim Pair_inject)
  apply hypsubst
  apply (rule refl)
  done
termination
proof (relation "measure (\<lambda>(p, t). 4 - SizeReceived p)")
  show "wf (measure (\<lambda>(p :: PendingPacket, t :: transport). 4 - SizeReceived p))"
    by simp
next
  fix p t x y xa ya xb yb xc
  assume lt: "SizeReceived p < 4"
    and r: "(x, y) = receive NonNull (4 - SizeReceived p) t" "(xa, ya) = y" "(xb, yb) = ya"
    and xc: "xc = p\<lparr>Size := write_bytes (Size p) (SizeReceived p) xb,
                     SizeReceived := SizeReceived p + xa\<rparr>"
    and d: "\<not> x \<noteq> Done"
  have "0 < xa"
  proof (cases "recv_oracle t (recv_calls t)")
    case (RecvData k)
    with r d show ?thesis by (auto simp: receive_def recv_def Let_def split: if_splits)
  next
    case (RecvFail e)
    with r d show ?thesis by (cases e) (simp_all add: receive_def recv_def)
  qed
  with lt xc show "((xc, yb), p, t) \<in> measure (\<lambda>(p, t). 4 - SizeReceived p)"
    by simp
qed

declare receive_size_loop.simps [simp del]

text \<open>
  The second loop: until \<open>packetSize\<close> bytes of data are there, through the 1024-byte
  buffer.
\<close>

function receive_data_loop :: "nat \<Rightarrow> PendingPacket \<Rightarrow> transport \<Rightarrow> Status \<times> PendingPacket \<times> transport" where
  "receive_data_loop packetSize p t =
     (if length (Data p) < packetSize then
        (let sizeToGet = min (packetSize - length (Data p)) 1024
         in case receive NonNull sizeToGet t of (status, received, bytes, t') \<Rightarrow>
              if status \<noteq> Done then (status, p, t')
              else receive_data_loop packetSize
                     (if received > 0 then p\<lparr>Data := Data p @ take received bytes\<rparr> else p) t')
      else (Done, p, t))"
  apply pat_completeness
  apply (elim Pair_inject)
  apply hypsubst
  apply (rule refl)
  done
termination
proof (relation "measure (\<lambda>(packetSize, p, t). packetSize - length (Data p))")
  show "wf (measure (\<lambda>(packetSize, p :: PendingPacket, t :: transport). packetSize - length (Data p)))"
    by simp
next
  fix packetSize p t x xa y xb ya xc yb
  assume lt: "length (Data p) < packetSize"
    and x: "x = min (packetSize - length (Data p)) 1024"
    and r: "(xa, y) = receive NonNull x t" "(xb, ya) = y" "(xc, yb) = ya"
    and d: "\<not> xa \<noteq> Done"
  have "0 < xb \<and> length xc = xb"
  proof (cases "recv_oracle t (recv_calls t)")
    case (RecvData k)
    with r d show ?thesis by (auto simp: receive_def recv_def Let_def split: if_splits)
  next
    case (RecvFail e)
    with r d show ?thesis by (cases e) (simp_all add: receive_def recv_def)
  qed
  with lt show "((packetSize, if 0 < xb then p\<lparr>Data := Data p @ take xb xc\<rparr> else p, yb),
       packetSize, p, t) \<in> measure (\<lambda>(packetSize, p, t). packetSize - length (Data p))"
    by (cases xc) auto
qed

declare receive_data_loop.simps [simp del]

text \<open>\<open>TcpSocket::receive(Packet& packet)\<close>.\<close>

definition receive_packet :: "Packet \<Rightarrow> TcpSocket \<Rightarrow> Status \<times> Packet \<times> TcpSocket" where
  "receive_packet packet0 s =
     (let packet = clear packet0 in
      case (if SizeReceived (m_pendingPacket s) < 4
            then receive_size_loop (m_pendingPacket s) (os s)
            else (Done, m_pendingPacket s, os s)) of
        (status1, p1, t1) \<Rightarrow>
          if status1 \<noteq> Done then (status1, packet, s\<lparr>m_pendingPacket := p1, os := t1\<rparr>)
          else
            (let packetSize = ntohl (Size p1)
             in case receive_data_loop packetSize p1 t1 of (status2, p2, t2) \<Rightarrow>
                  if status2 \<noteq> Done then (status2, packet, s\<lparr>m_pendingPacket := p2, os := t2\<rparr>)
                  else
                    (Done,
                     (if Data p2 \<noteq> [] then onReceive packet (Data p2) (length (Data p2))
                      else packet),
                     s\<lparr>m_pendingPacket := PendingPacket_init, os := t2\<rparr>)))"


subsection \<open>Concrete transports and sockets\<close>

text \<open>
  A transport with the given oracles and waiting bytes, nothing sent or called yet, and
  a freshly constructed socket on a transport (the constructor leaves the handle
  invalid, the mode blocking and the pending packet empty).
\<close>

definition mock_transport :: "(nat \<Rightarrow> recv_event) \<Rightarrow> (nat \<Rightarrow> send_event) \<Rightarrow> byte list \<Rightarrow> transport" where
  "mock_transport ro so bs =
     \<lparr>inbound = bs, outbound = [], recv_oracle = ro, send_oracle = so, recv_calls = 0,
      send_calls = 0, errno = OtherFailure, connect_oracle = None, select_oracle = SelectReady,
      getpeername_oracle = Inr 0, trace = []\<rparr>"

definition TcpSocket_init :: "transport \<Rightarrow> TcpSocket" where
  "TcpSocket_init t =
     \<lparr>m_socketValid = False, m_isBlocking = True, m_pendingPacket = PendingPacket_init,
      m_blockToSendBuffer = [], os = t\<rparr>"

text \<open>
  A transport that hands over one byte per call, and one that does so except for its
  \<open>j\<close>-th call, which reports "would block".
\<close>

definition byte_by_byte :: "nat \<Rightarrow> recv_event" where
  "byte_by_byte i = RecvData 1"

definition stalling_at :: "nat \<Rightarrow> nat \<Rightarrow> recv_event" where
  "stalling_at j i = (if i = j then RecvFail WouldBlock else RecvData 1)"

definition accept_all :: "nat \<Rightarrow> send_event" where
  "accept_all i = SendAccept INT_MAX"

text \<open>
  A transport that takes two bytes per call of \<open>::send\<close> except for its \<open>j\<close>-th call,
  which reports "would block".
\<close>

definition send_stalling_at :: "nat \<Rightarrow> nat \<Rightarrow> send_event" where
  "send_stalling_at j i = (if i = j then SendFail WouldBlock else SendAccept 2)"


subsection \<open>Notions used by the properties\<close>

text \<open>
  The status of a chunk receive that yields no data, by what the transport did: a failed
  call gives the translated status, a call that returns 0 gives Disconnected.
\<close>

fun failed_chunk_status :: "recv_event \<Rightarrow> Status" where
  "failed_chunk_status (RecvFail e) = getErrorStatus e"
| "failed_chunk_status (RecvData k) = Disconnected"

text \<open>
  A transport that only fragments the stream: each call of \<open>recv\<close> either hands over a
  positive number of bytes (\<open>is_data\<close>) or reports "would block".
\<close>

fun is_fragment :: "recv_event \<Rightarrow> bool" where
  "is_fragment (RecvData k) = (0 < k)"
| "is_fragment (RecvFail e) = (e = WouldBlock)"

fun is_data :: "recv_event \<Rightarrow> bool" where
  "is_data (RecvData k) = (0 < k)"
| "is_data (RecvFail e) = False"

text \<open>
  The bytes of the stream that the pending packet holds: the part of the size received
  so far, then the data received so far.
\<close>

definition collected :: "PendingPacket \<Rightarrow> byte list" where
  "collected p = take (SizeReceived p) (Size p) @ Data p"

text \<open>
  The invariant of the pending packet: the size is 4 bytes of memory of which at most 4
  are received; no data before the size is complete; never more data than the size
  announces.
\<close>

definition pending_inv :: "PendingPacket \<Rightarrow> bool" where
  "pending_inv p \<longleftrightarrow>
     length (Size p) = 4 \<and> SizeReceived p \<le> 4 \<and>
     (SizeReceived p < 4 \<longrightarrow> Data p = []) \<and>
     (SizeReceived p = 4 \<longrightarrow> length (Data p) \<le> ntohl (Size p))"

text \<open>
  The reassembly state machine in the spec's words: AwaitingPrefix while fewer than 4
  bytes of the size are there, then AwaitingPayload while the data is shorter than the
  size says. \<open>wants_chunk\<close>: the state asks for another chunk; \<open>chunk_capacity\<close>: how many
  bytes it asks for (the rest of the size, or the rest of the data up to the 1024 bytes
  of the buffer); \<open>absorb\<close>: the state after a chunk of bytes.
\<close>

definition wants_chunk :: "PendingPacket \<Rightarrow> bool" where
  "wants_chunk p \<longleftrightarrow> SizeReceived p < 4 \<or> length (Data p) < ntohl (Size p)"

definition chunk_capacity :: "PendingPacket \<Rightarrow> nat" where
  "chunk_capacity p =
     (if SizeReceived p < 4 then 4 - SizeReceived p
      else min (ntohl (Size p) - length (Data p)) 1024)"

definition absorb :: "PendingPacket \<Rightarrow> byte list \<Rightarrow> PendingPacket" where
  "absorb p bytes =
     (if SizeReceived p < 4
      then p\<lparr>Size := write_bytes (Size p) (SizeReceived p) bytes,
             SizeReceived := SizeReceived p + length bytes\<rparr>
      else p\<lparr>Data := Data p @ bytes\<rparr>)"

text \<open>
  The states a socket reaches: it starts with an empty pending packet (construction,
  disconnect), any call of \<open>receive_packet\<close> leads to a reachable state, between calls
  the transport may change in any way, and inside a call every chunk that yields data
  leads to a reachable state (the states between the chunks of one call).
\<close>

inductive reachable :: "TcpSocket \<Rightarrow> bool" where
  reachable_init: "m_pendingPacket s = PendingPacket_init \<Longrightarrow> reachable s"
| reachable_receive: "reachable s \<Longrightarrow> receive_packet packet s = (status, packet', s') \<Longrightarrow> reachable s'"
| reachable_transport: "reachable s \<Longrightarrow> reachable (s\<lparr>os := t\<rparr>)"
| reachable_chunk:
    "reachable s \<Longrightarrow> wants_chunk (m_pendingPacket s) \<Longrightarrow>
     receive NonNull (chunk_capacity (m_pendingPacket s)) (os s) = (Done, n, bytes, t) \<Longrightarrow>
     reachable (s\<lparr>m_pendingPacket := absorb (m_pendingPacket s) bytes, os := t\<rparr>)"

text \<open>
  The same notions for \<open>::send\<close>: a call that takes bytes, a call that fails with "would
  block", and a transport that does nothing but these two.
\<close>

fun is_accept :: "send_event \<Rightarrow> bool" where
  "is_accept (SendAccept k) = True"
| "is_accept (SendFail e) = False"

fun send_would_block :: "send_event \<Rightarrow> bool" where
  "send_would_block (SendAccept k) = False"
| "send_would_block (SendFail e) = (getErrorStatus e = NotReady)"

text \<open>
  The status of a send whose last transport call failed after \<open>sent\<close> bytes had been
  taken: "would block" after some bytes is Partial, else the translated status.
\<close>

fun failed_send_status :: "send_event \<Rightarrow> nat \<Rightarrow> Status" where
  "failed_send_status (SendFail e) sent =
     (if getErrorStatus e = NotReady \<and> sent \<noteq> 0 then Partial else getErrorStatus e)"
| "failed_send_status (SendAccept k) sent = Done"

fun is_send_fragment :: "send_event \<Rightarrow> bool" where
  "is_send_fragment (SendAccept k) = True"
| "is_send_fragment (SendFail e) = (e = WouldBlock)"

text \<open>
  The block that \<open>send_packet\<close> puts on the wire for a payload: the 4 bytes of its length,
  cut to 32 bits, then the payload.
\<close>

definition framed :: "byte list \<Rightarrow> byte list" where
  "framed payload = htonl (length payload mod 4294967296) @ payload"

text \<open>
  The callers' loops: sending a packet again while the result is Partial or NotReady, and
  receiving again while the result is NotReady, at most \<open>n\<close> more times.
\<close>

fun send_retry :: "nat \<Rightarrow> Packet \<Rightarrow> TcpSocket \<Rightarrow> fault + Status \<times> Packet \<times> TcpSocket" where
  "send_retry 0 packet s = send_packet packet s"
| "send_retry (Suc n) packet s =
     (case send_packet packet s of
        Inl f \<Rightarrow> Inl f
      | Inr (status, packet', s') \<Rightarrow>
          if status = Partial \<or> status = NotReady then send_retry n packet' s'
          else Inr (status, packet', s'))"

fun receive_retry :: "nat \<Rightarrow> Packet \<Rightarrow> TcpSocket \<Rightarrow> Status \<times> Packet \<times> TcpSocket" where
  "receive_retry 0 packet s = receive_packet packet s"
| "receive_retry (Suc n) packet s =
     (case receive_packet packet s of (status, packet', s') \<Rightarrow>
        if status = NotReady then receive_retry n packet' s'
        else (status, packet', s'))"

text \<open>
  A round trip: a sender on a transport with the send oracle \<open>so\<close> sends a packet with the
  payload, retrying at most \<open>m\<close> times; what the transport accepted is the stream of a
  receiver whose transport has the receive oracle \<open>ro\<close> and which receives into a packet
  with old contents \<open>junk\<close>, retrying at most \<open>n\<close> times. The result: the status of
  the sender, the bytes on the wire, the status of the receiver, the payload delivered and
  what is left of the stream.
\<close>

definition round_trip ::
  "byte list \<Rightarrow> byte list \<Rightarrow> (nat \<Rightarrow> send_event) \<Rightarrow> (nat \<Rightarrow> recv_event) \<Rightarrow> nat \<Rightarrow> nat \<Rightarrow>
     fault + Status \<times> byte list \<times> Status \<times> byte list \<times> byte list" where
  "round_trip payload junk so ro m n =
     (case send_retry m \<lparr>m_data = payload, m_sendPos = 0\<rparr>
             (TcpSocket_init (mock_transport ro so [])) of
        Inl f \<Rightarrow> Inl f
      | Inr (sstatus, spacket, sender) \<Rightarrow>
          (case receive_retry n \<lparr>m_data = junk, m_sendPos = 0\<rparr>
                  (TcpSocket_init (mock_transport ro so (outbound (os sender)))) of
             (rstatus, rpacket, receiver) \<Rightarrow>
               Inr (sstatus, outbound (os sender), rstatus, m_data rpacket,
                    inbound (os receiver))))"


section \<open>Properties\<close>

subsection \<open>The system calls\<close>

lemma getErrorStatus_not_Done [simp]: "getErrorStatus e \<noteq> Done" "Done \<noteq> getErrorStatus e"
  by (cases e; simp)+

lemma getErrorStatus_not_Partial [simp]: "getErrorStatus e \<noteq> Partial" "Partial \<noteq> getErrorStatus e"
  by (cases e; simp)+

lemma getErrorStatus_range: "getErrorStatus e \<in> {NotReady, Disconnected, Error}"
  by (cases e) simp_all

lemma getErrorStatus_NotReady [simp]: "getErrorStatus e = NotReady \<longleftrightarrow> e = WouldBlock"
  by (cases e) simp_all

lemma recv_data:
  assumes "recv_oracle t (recv_calls t) = RecvData k"
  shows "recv t sz =
    (int (min (min k sz) (min (length (inbound t)) INT_MAX)),
     take (min (min k sz) (min (length (inbound t)) INT_MAX)) (inbound t),
     t\<lparr>inbound := drop (min (min k sz) (min (length (inbound t)) INT_MAX)) (inbound t),
       recv_calls := Suc (recv_calls t)\<rparr>)"
  using assms by (simp add: recv_def Let_def)

lemma recv_fail:
  assumes "recv_oracle t (recv_calls t) = RecvFail e"
  shows "recv t sz = (- 1, [], t\<lparr>recv_calls := Suc (recv_calls t), errno := e\<rparr>)"
  using assms by (simp add: recv_def)

lemma recv_props:
  assumes "recv t sz = (r, bs, t1)"
  shows "recv_calls t1 = Suc (recv_calls t)"
    and "recv_oracle t1 = recv_oracle t"
    and "bs @ inbound t1 = inbound t"
    and "0 \<le> r \<Longrightarrow> nat r = length bs"
    and "length bs \<le> sz"
    and "r < 0 \<Longrightarrow> bs = []"
    and "- 1 \<le> r"
  using assms
  by (cases "recv_oracle t (recv_calls t)"; simp add: recv_data recv_fail; fastforce)+


subsection \<open>The receive loops\<close>

lemma receive_NonNull_props:
  assumes "receive NonNull sz t = (st, n, bs, t')"
  shows "recv_calls t' = Suc (recv_calls t)"
    and "recv_oracle t' = recv_oracle t"
    and "bs @ inbound t' = inbound t"
    and "length bs = n"
    and "n \<le> sz"
    and "st = Done \<longleftrightarrow> 0 < n"
proof -
  obtain r bs1 t1 where r: "recv t sz = (r, bs1, t1)"
    by (cases "recv t sz") auto
  note p = recv_props [OF r]
  have e: "(st, n, bs, t') =
      (if 0 < r then (Done, nat r, bs1, t1)
       else if r = 0 then (Disconnected, 0, [], t1)
       else (getErrorStatus (errno t1), 0, [], t1))"
    using assms r by (simp add: receive_def)
  show "recv_calls t' = Suc (recv_calls t)" using e p(1) by (simp split: if_splits)
  show "recv_oracle t' = recv_oracle t" using e p(2) by (simp split: if_splits)
  show "bs @ inbound t' = inbound t" using e p(3,4,6) by (auto split: if_splits)
  show "length bs = n" using e p(4) by (auto split: if_splits)
  show "n \<le> sz" using e p(4,5) by (auto split: if_splits)
  show "st = Done \<longleftrightarrow> 0 < n" using e by (auto split: if_splits)
qed

lemma receive_NonNull_fail:
  assumes "receive NonNull sz t = (st, n, bs, t')" and "st \<noteq> Done"
  shows "n = 0" and "bs = []" and "inbound t' = inbound t"
  using receive_NonNull_props [OF assms(1)] assms(2) by auto

lemma receive_NonNull_fail_status:
  assumes "receive NonNull sz t = (st, n, bs, t')" and "st \<noteq> Done"
  shows "st = failed_chunk_status (recv_oracle t (recv_calls t))"
  using assms
  by (cases "recv_oracle t (recv_calls t)")
     (auto simp: receive_def recv_data recv_fail split: if_splits)

lemma receive_NonNull_fragment:
  assumes "receive NonNull sz t = (st, n, bs, t')"
    and "is_fragment (recv_oracle t (recv_calls t))" and "0 < sz" and "inbound t \<noteq> []"
  shows "st = Done \<or> st = NotReady"
    and "is_data (recv_oracle t (recv_calls t)) \<Longrightarrow> st = Done"
proof -
  have "(st = Done \<or> st = NotReady) \<and> (is_data (recv_oracle t (recv_calls t)) \<longrightarrow> st = Done)"
  proof (cases "recv_oracle t (recv_calls t)")
    case (RecvData k)
    with assms(2) have "0 < k" by simp
    moreover have "0 < length (inbound t)" using assms(4) by simp
    ultimately have "0 < min (min k sz) (min (length (inbound t)) INT_MAX)"
      using assms(3) by (simp add: INT_MAX_def)
    then have "st = Done"
      using assms(1) RecvData by (simp add: receive_def recv_data)
    then show ?thesis by simp
  next
    case (RecvFail e)
    with assms(2) have "e = WouldBlock" by simp
    then have "st = NotReady"
      using assms(1) RecvFail by (simp add: receive_def recv_fail)
    then show ?thesis using RecvFail by simp
  qed
  then show "st = Done \<or> st = NotReady"
    and "is_data (recv_oracle t (recv_calls t)) \<Longrightarrow> st = Done"
    by simp_all
qed

lemma write_bytes_Nil [simp]: "write_bytes mem off [] = mem"
  by (simp add: write_bytes_def)

lemma length_write_bytes:
  "off + length bs \<le> length mem \<Longrightarrow> length (write_bytes mem off bs) = length mem"
  by (simp add: write_bytes_def)

lemma take_write_bytes:
  "off + length bs \<le> length mem \<Longrightarrow>
     take (off + length bs) (write_bytes mem off bs) = take off mem @ bs"
  by (simp add: write_bytes_def)

lemma receive_size_loop_done: "\<not> SizeReceived p < 4 \<Longrightarrow> receive_size_loop p t = (Done, p, t)"
  by (simp add: receive_size_loop.simps)

lemma receive_size_loop_step:
  assumes "SizeReceived p < 4" and "receive NonNull (4 - SizeReceived p) t = (st, n, bs, t1)"
  shows "receive_size_loop p t =
    (if st \<noteq> Done
     then (st, p\<lparr>Size := write_bytes (Size p) (SizeReceived p) bs,
                 SizeReceived := SizeReceived p + n\<rparr>, t1)
     else receive_size_loop (p\<lparr>Size := write_bytes (Size p) (SizeReceived p) bs,
                 SizeReceived := SizeReceived p + n\<rparr>) t1)"
  using assms by (subst receive_size_loop.simps) (simp add: Let_def)

lemma receive_size_loop_props:
  assumes "receive_size_loop p t = (st, p', t')" and "length (Size p) = 4"
  shows "take (SizeReceived p') (Size p') @ inbound t' = take (SizeReceived p) (Size p) @ inbound t \<and>
         length (Size p') = 4 \<and> SizeReceived p \<le> SizeReceived p' \<and>
         (SizeReceived p \<le> 4 \<longrightarrow> SizeReceived p' \<le> 4) \<and> Data p' = Data p \<and>
         (st = Done \<longrightarrow> 4 \<le> SizeReceived p') \<and> (st \<noteq> Done \<longrightarrow> SizeReceived p' < 4) \<and>
         recv_oracle t' = recv_oracle t \<and> recv_calls t \<le> recv_calls t' \<and>
         (st \<noteq> Done \<longrightarrow> recv_calls t < recv_calls t' \<and>
            st = failed_chunk_status (recv_oracle t (recv_calls t' - 1))) \<and>
         (SizeReceived p' = SizeReceived p \<longrightarrow> p' = p)"
  using assms
proof (induction p t rule: receive_size_loop.induct)
  case (1 p t)
  show ?case
  proof (cases "SizeReceived p < 4")
    case False
    with "1.prems" show ?thesis by (simp add: receive_size_loop_done)
  next
    case True
    obtain st1 n bs t1 where r: "receive NonNull (4 - SizeReceived p) t = (st1, n, bs, t1)"
      by (cases "receive NonNull (4 - SizeReceived p) t") auto
    note rp = receive_NonNull_props [OF r]
    let ?p1 = "p\<lparr>Size := write_bytes (Size p) (SizeReceived p) bs,
                 SizeReceived := SizeReceived p + n\<rparr>"
    show ?thesis
    proof (cases "st1 = Done")
      case False
      then have "n = 0" "bs = []" "inbound t1 = inbound t"
        using receive_NonNull_fail [OF r] by auto
      moreover have "receive_size_loop p t = (st1, ?p1, t1)"
        using receive_size_loop_step [OF True r] False by simp
      ultimately show ?thesis
        using "1.prems" True False rp(1,2) receive_NonNull_fail_status [OF r] by auto
    next
      case Done: True
      have rec: "receive_size_loop p t = receive_size_loop ?p1 t1"
        using receive_size_loop_step [OF \<open>SizeReceived p < 4\<close> r] Done by simp
      have fit: "SizeReceived p + length bs \<le> length (Size p)"
        using rp(4,5) \<open>SizeReceived p < 4\<close> "1.prems"(2) by simp
      have len: "length (Size ?p1) = 4"
        using length_write_bytes [OF fit] "1.prems"(2) by simp
      have tk: "take (SizeReceived ?p1) (Size ?p1) = take (SizeReceived p) (Size p) @ bs"
        using take_write_bytes [OF fit] rp(4) by simp
      have ih: "take (SizeReceived p') (Size p') @ inbound t' =
            take (SizeReceived ?p1) (Size ?p1) @ inbound t1 \<and>
         length (Size p') = 4 \<and> SizeReceived ?p1 \<le> SizeReceived p' \<and>
         (SizeReceived ?p1 \<le> 4 \<longrightarrow> SizeReceived p' \<le> 4) \<and> Data p' = Data ?p1 \<and>
         (st = Done \<longrightarrow> 4 \<le> SizeReceived p') \<and> (st \<noteq> Done \<longrightarrow> SizeReceived p' < 4) \<and>
         recv_oracle t' = recv_oracle t1 \<and> recv_calls t1 \<le> recv_calls t' \<and>
         (st \<noteq> Done \<longrightarrow> recv_calls t1 < recv_calls t' \<and>
            st = failed_chunk_status (recv_oracle t1 (recv_calls t' - 1))) \<and>
         (SizeReceived p' = SizeReceived ?p1 \<longrightarrow> p' = ?p1)"
        using "1.IH" [OF \<open>SizeReceived p < 4\<close> r [symmetric] refl refl refl] Done
          "1.prems"(1) rec len by simp
      have npos: "0 < n" using rp(6) Done by simp
      have n4: "SizeReceived p + n \<le> 4" using fit rp(4) "1.prems"(2) by simp
      have c1: "take (SizeReceived p') (Size p') @ inbound t' =
          take (SizeReceived p) (Size p) @ inbound t"
        using ih tk rp(3) by simp
      have sr: "SizeReceived p + n \<le> SizeReceived p'" "Data p' = Data p"
        using ih by simp_all
      show ?thesis
        using ih c1 sr rp(1,2) npos n4 by simp
    qed
  qed
qed


lemma receive_data_loop_done:
  "\<not> length (Data p) < n \<Longrightarrow> receive_data_loop n p t = (Done, p, t)"
  by (simp add: receive_data_loop.simps)

lemma receive_data_loop_step:
  assumes "length (Data p) < n"
    and "receive NonNull (min (n - length (Data p)) 1024) t = (st, k, bs, t1)"
  shows "receive_data_loop n p t =
    (if st \<noteq> Done then (st, p, t1)
     else receive_data_loop n (p\<lparr>Data := Data p @ bs\<rparr>) t1)"
proof -
  have "length bs = k" "st = Done \<longleftrightarrow> 0 < k"
    using receive_NonNull_props [OF assms(2)] by auto
  then show ?thesis
    using assms by (subst receive_data_loop.simps) (auto simp: Let_def)
qed

lemma receive_data_loop_props:
  assumes "receive_data_loop n p t = (st, p', t')"
  shows "Data p' @ inbound t' = Data p @ inbound t \<and>
         Size p' = Size p \<and> SizeReceived p' = SizeReceived p \<and>
         length (Data p) \<le> length (Data p') \<and>
         (length (Data p) \<le> n \<longrightarrow> length (Data p') \<le> n) \<and>
         (st = Done \<longrightarrow> n \<le> length (Data p')) \<and> (st \<noteq> Done \<longrightarrow> length (Data p') < n) \<and>
         recv_oracle t' = recv_oracle t \<and> recv_calls t \<le> recv_calls t' \<and>
         (st \<noteq> Done \<longrightarrow> recv_calls t < recv_calls t' \<and>
            st = failed_chunk_status (recv_oracle t (recv_calls t' - 1))) \<and>
         (length (Data p') = length (Data p) \<longrightarrow> p' = p) \<and>
         (n \<le> length (Data p) \<longrightarrow> t' = t)"
  using assms
proof (induction n p t rule: receive_data_loop.induct)
  case (1 n p t)
  show ?case
  proof (cases "length (Data p) < n")
    case False
    with "1.prems" show ?thesis by (simp add: receive_data_loop_done)
  next
    case True
    obtain st1 k bs t1 where
      r: "receive NonNull (min (n - length (Data p)) 1024) t = (st1, k, bs, t1)"
      by (cases "receive NonNull (min (n - length (Data p)) 1024) t") auto
    note rp = receive_NonNull_props [OF r]
    let ?p1 = "p\<lparr>Data := Data p @ bs\<rparr>"
    show ?thesis
    proof (cases "st1 = Done")
      case False
      then have "inbound t1 = inbound t"
        using receive_NonNull_fail [OF r] by auto
      moreover have "receive_data_loop n p t = (st1, p, t1)"
        using receive_data_loop_step [OF True r] False by simp
      ultimately show ?thesis
        using "1.prems" True False rp(1,2) receive_NonNull_fail_status [OF r] by auto
    next
      case Done: True
      have kpos: "0 < k" using rp(6) Done by simp
      have rec: "receive_data_loop n p t = receive_data_loop n ?p1 t1"
        using receive_data_loop_step [OF \<open>length (Data p) < n\<close> r] Done by simp
      have arg: "(if 0 < k then p\<lparr>Data := Data p @ take k bs\<rparr> else p) = ?p1"
        using kpos rp(4) by simp
      have ih: "Data p' @ inbound t' = Data ?p1 @ inbound t1 \<and>
         Size p' = Size ?p1 \<and> SizeReceived p' = SizeReceived ?p1 \<and>
         length (Data ?p1) \<le> length (Data p') \<and>
         (length (Data ?p1) \<le> n \<longrightarrow> length (Data p') \<le> n) \<and>
         (st = Done \<longrightarrow> n \<le> length (Data p')) \<and> (st \<noteq> Done \<longrightarrow> length (Data p') < n) \<and>
         recv_oracle t' = recv_oracle t1 \<and> recv_calls t1 \<le> recv_calls t' \<and>
         (st \<noteq> Done \<longrightarrow> recv_calls t1 < recv_calls t' \<and>
            st = failed_chunk_status (recv_oracle t1 (recv_calls t' - 1))) \<and>
         (length (Data p') = length (Data ?p1) \<longrightarrow> p' = ?p1) \<and>
         (n \<le> length (Data ?p1) \<longrightarrow> t' = t1)"
        using "1.IH" [OF \<open>length (Data p) < n\<close> refl r [symmetric] refl refl] Done
          "1.prems"(1) rec arg by simp
      have fit: "length (Data p) + k \<le> n"
        using rp(5) \<open>length (Data p) < n\<close> by arith
      have c1: "Data p' @ inbound t' = Data p @ inbound t"
        using ih rp(3) by simp
      show ?thesis
        using ih c1 rp(1,2,4) kpos fit \<open>length (Data p) < n\<close> by simp
    qed
  qed
qed

lemma oracle_suffix:
  assumes "\<forall>i\<ge>(c::nat). P (f i)" and "c \<le> c'" and "f' = f"
  shows "\<forall>i\<ge>c'. P (f' i)"
  using assms by auto

lemma receive_size_loop_fragment:
  assumes "receive_size_loop p t = (st, p', t')"
    and "\<forall>i\<ge>recv_calls t. is_fragment (recv_oracle t i)"
    and "4 - SizeReceived p \<le> length (inbound t)"
  shows "(st = Done \<or> st = NotReady) \<and>
         ((\<forall>i\<ge>recv_calls t. is_data (recv_oracle t i)) \<longrightarrow> st = Done)"
  using assms
proof (induction p t rule: receive_size_loop.induct)
  case (1 p t)
  show ?case
  proof (cases "SizeReceived p < 4")
    case False
    with "1.prems"(1) show ?thesis by (simp add: receive_size_loop_done)
  next
    case True
    obtain st1 n bs t1 where r: "receive NonNull (4 - SizeReceived p) t = (st1, n, bs, t1)"
      by (cases "receive NonNull (4 - SizeReceived p) t") auto
    note rp = receive_NonNull_props [OF r]
    have ne: "inbound t \<noteq> []" using True "1.prems"(3) by auto
    have fr: "is_fragment (recv_oracle t (recv_calls t))" using "1.prems"(2) by simp
    have pos: "0 < 4 - SizeReceived p" using True by simp
    note rf = receive_NonNull_fragment [OF r fr pos ne]
    let ?p1 = "p\<lparr>Size := write_bytes (Size p) (SizeReceived p) bs,
                 SizeReceived := SizeReceived p + n\<rparr>"
    show ?thesis
    proof (cases "st1 = Done")
      case False
      have "receive_size_loop p t = (st1, ?p1, t1)"
        using receive_size_loop_step [OF True r] False by simp
      then have eq: "st = st1" using "1.prems"(1) by simp
      have "\<not> is_data (recv_oracle t (recv_calls t))"
        using rf(2) False by blast
      then have "\<not> (\<forall>i\<ge>recv_calls t. is_data (recv_oracle t i))"
        by blast
      then show ?thesis using eq rf(1) by blast
    next
      case Done: True
      have nd: "\<not> st1 \<noteq> Done" using Done by simp
      have res: "receive_size_loop ?p1 t1 = (st, p', t')"
        using receive_size_loop_step [OF \<open>SizeReceived p < 4\<close> r] Done "1.prems"(1) by simp
      have le: "recv_calls t \<le> recv_calls t1" using rp(1) by simp
      have a: "\<forall>i\<ge>recv_calls t1. is_fragment (recv_oracle t1 i)"
        using oracle_suffix [OF "1.prems"(2) le rp(2)] .
      have "length (inbound t) = n + length (inbound t1)"
        using rp(3,4) by (metis length_append)
      then have b: "4 - SizeReceived ?p1 \<le> length (inbound t1)"
        using "1.prems"(3) by simp
      have ih: "(st = Done \<or> st = NotReady) \<and>
         ((\<forall>i\<ge>recv_calls t1. is_data (recv_oracle t1 i)) \<longrightarrow> st = Done)"
        using "1.IH" [OF \<open>SizeReceived p < 4\<close> r [symmetric] refl refl refl nd res a b] .
      show ?thesis
      proof (intro conjI impI)
        show "st = Done \<or> st = NotReady" using ih by simp
      next
        assume "\<forall>i\<ge>recv_calls t. is_data (recv_oracle t i)"
        then have "\<forall>i\<ge>recv_calls t1. is_data (recv_oracle t1 i)"
          using oracle_suffix [OF _ le rp(2)] by blast
        then show "st = Done" using ih by simp
      qed
    qed
  qed
qed


lemma receive_data_loop_fragment:
  assumes "receive_data_loop n p t = (st, p', t')"
    and "\<forall>i\<ge>recv_calls t. is_fragment (recv_oracle t i)"
    and "n - length (Data p) \<le> length (inbound t)"
  shows "(st = Done \<or> st = NotReady) \<and>
         ((\<forall>i\<ge>recv_calls t. is_data (recv_oracle t i)) \<longrightarrow> st = Done)"
  using assms
proof (induction n p t rule: receive_data_loop.induct)
  case (1 n p t)
  show ?case
  proof (cases "length (Data p) < n")
    case False
    with "1.prems"(1) show ?thesis by (simp add: receive_data_loop_done)
  next
    case True
    obtain st1 k bs t1 where
      r: "receive NonNull (min (n - length (Data p)) 1024) t = (st1, k, bs, t1)"
      by (cases "receive NonNull (min (n - length (Data p)) 1024) t") auto
    note rp = receive_NonNull_props [OF r]
    have ne: "inbound t \<noteq> []" using True "1.prems"(3) by auto
    have fr: "is_fragment (recv_oracle t (recv_calls t))" using "1.prems"(2) by simp
    have pos: "0 < min (n - length (Data p)) 1024" using True by simp
    note rf = receive_NonNull_fragment [OF r fr pos ne]
    let ?p1 = "p\<lparr>Data := Data p @ bs\<rparr>"
    show ?thesis
    proof (cases "st1 = Done")
      case False
      have "receive_data_loop n p t = (st1, p, t1)"
        using receive_data_loop_step [OF True r] False by simp
      then have eq: "st = st1" using "1.prems"(1) by simp
      have "\<not> is_data (recv_oracle t (recv_calls t))"
        using rf(2) False by blast
      then have "\<not> (\<forall>i\<ge>recv_calls t. is_data (recv_oracle t i))"
        by blast
      then show ?thesis using eq rf(1) by blast
    next
      case Done: True
      have nd: "\<not> st1 \<noteq> Done" using Done by simp
      have kpos: "0 < k" using rp(6) Done by simp
      have arg: "(if 0 < k then p\<lparr>Data := Data p @ take k bs\<rparr> else p) = ?p1"
        using kpos rp(4) by simp
      have res: "receive_data_loop n ?p1 t1 = (st, p', t')"
        using receive_data_loop_step [OF \<open>length (Data p) < n\<close> r] Done "1.prems"(1) by simp
      have le: "recv_calls t \<le> recv_calls t1" using rp(1) by simp
      have a: "\<forall>i\<ge>recv_calls t1. is_fragment (recv_oracle t1 i)"
        using oracle_suffix [OF "1.prems"(2) le rp(2)] .
      have "length (inbound t) = k + length (inbound t1)"
        using rp(3,4) by (metis length_append)
      then have b: "n - length (Data ?p1) \<le> length (inbound t1)"
        using "1.prems"(3) rp(4) by simp
      have ih: "(st = Done \<or> st = NotReady) \<and>
         ((\<forall>i\<ge>recv_calls t1. is_data (recv_oracle t1 i)) \<longrightarrow> st = Done)"
        using "1.IH" [OF \<open>length (Data p) < n\<close> refl r [symmetric] refl refl nd] res a b
        unfolding arg by blast
      show ?thesis
      proof (intro conjI impI)
        show "st = Done \<or> st = NotReady" using ih by simp
      next
        assume "\<forall>i\<ge>recv_calls t. is_data (recv_oracle t i)"
        then have "\<forall>i\<ge>recv_calls t1. is_data (recv_oracle t1 i)"
          using oracle_suffix [OF _ le rp(2)] by blast
        then show "st = Done" using ih by simp
      qed
    qed
  qed
qed

lemma receive_NonNull_Done_data:
  assumes "receive NonNull sz t = (Done, n, bs, t')"
  shows "is_data (recv_oracle t (recv_calls t))"
  using assms
  by (cases "recv_oracle t (recv_calls t)")
     (auto simp: receive_def recv_data recv_fail split: if_splits)

lemma receive_size_loop_calls:
  assumes "receive_size_loop p t = (st, p', t')"
  shows "\<forall>i. recv_calls t \<le> i \<and> i < recv_calls t' - (if st = Done then 0 else 1)
           \<longrightarrow> is_data (recv_oracle t i)"
  using assms
proof (induction p t rule: receive_size_loop.induct)
  case (1 p t)
  show ?case
  proof (cases "SizeReceived p < 4")
    case False
    with "1.prems"(1) show ?thesis by (auto simp add: receive_size_loop_done)
  next
    case True
    obtain st1 n bs t1 where r: "receive NonNull (4 - SizeReceived p) t = (st1, n, bs, t1)"
      by (cases "receive NonNull (4 - SizeReceived p) t") auto
    note rp = receive_NonNull_props [OF r]
    let ?p1 = "p\<lparr>Size := write_bytes (Size p) (SizeReceived p) bs,
                 SizeReceived := SizeReceived p + n\<rparr>"
    show ?thesis
    proof (cases "st1 = Done")
      case False
      have "receive_size_loop p t = (st1, ?p1, t1)"
        using receive_size_loop_step [OF True r] False by simp
      then show ?thesis using "1.prems"(1) rp(1) False by auto
    next
      case Done: True
      have nd: "\<not> st1 \<noteq> Done" using Done by simp
      have res: "receive_size_loop ?p1 t1 = (st, p', t')"
        using receive_size_loop_step [OF \<open>SizeReceived p < 4\<close> r] Done "1.prems"(1) by simp
      have ih: "\<forall>i. recv_calls t1 \<le> i \<and> i < recv_calls t' - (if st = Done then 0 else 1)
           \<longrightarrow> is_data (recv_oracle t1 i)"
        using "1.IH" [OF \<open>SizeReceived p < 4\<close> r [symmetric] refl refl refl nd res] .
      have d0: "is_data (recv_oracle t (recv_calls t))"
        using receive_NonNull_Done_data r Done by blast
      show ?thesis
      proof (intro allI impI)
        fix i
        assume i: "recv_calls t \<le> i \<and> i < recv_calls t' - (if st = Done then 0 else 1)"
        show "is_data (recv_oracle t i)"
        proof (cases "i = recv_calls t")
          case True
          then show ?thesis using d0 by simp
        next
          case False
          with i have "recv_calls t1 \<le> i" using rp(1) by simp
          with i ih show ?thesis using rp(2) by simp
        qed
      qed
    qed
  qed
qed

lemma receive_data_loop_calls:
  assumes "receive_data_loop n p t = (st, p', t')"
  shows "\<forall>i. recv_calls t \<le> i \<and> i < recv_calls t' - (if st = Done then 0 else 1)
           \<longrightarrow> is_data (recv_oracle t i)"
  using assms
proof (induction n p t rule: receive_data_loop.induct)
  case (1 n p t)
  show ?case
  proof (cases "length (Data p) < n")
    case False
    with "1.prems"(1) show ?thesis by (auto simp add: receive_data_loop_done)
  next
    case True
    obtain st1 k bs t1 where
      r: "receive NonNull (min (n - length (Data p)) 1024) t = (st1, k, bs, t1)"
      by (cases "receive NonNull (min (n - length (Data p)) 1024) t") auto
    note rp = receive_NonNull_props [OF r]
    let ?p1 = "p\<lparr>Data := Data p @ bs\<rparr>"
    show ?thesis
    proof (cases "st1 = Done")
      case False
      have "receive_data_loop n p t = (st1, p, t1)"
        using receive_data_loop_step [OF True r] False by simp
      then show ?thesis using "1.prems"(1) rp(1) False by auto
    next
      case Done: True
      have nd: "\<not> st1 \<noteq> Done" using Done by simp
      have kpos: "0 < k" using rp(6) Done by simp
      have arg: "(if 0 < k then p\<lparr>Data := Data p @ take k bs\<rparr> else p) = ?p1"
        using kpos rp(4) by simp
      have res: "receive_data_loop n ?p1 t1 = (st, p', t')"
        using receive_data_loop_step [OF \<open>length (Data p) < n\<close> r] Done "1.prems"(1) by simp
      have ih: "\<forall>i. recv_calls t1 \<le> i \<and> i < recv_calls t' - (if st = Done then 0 else 1)
           \<longrightarrow> is_data (recv_oracle t1 i)"
        using "1.IH" [OF \<open>length (Data p) < n\<close> refl r [symmetric] refl refl nd] res
        unfolding arg by blast
      have d0: "is_data (recv_oracle t (recv_calls t))"
        using receive_NonNull_Done_data r Done by blast
      show ?thesis
      proof (intro allI impI)
        fix i
        assume i: "recv_calls t \<le> i \<and> i < recv_calls t' - (if st = Done then 0 else 1)"
        show "is_data (recv_oracle t i)"
        proof (cases "i = recv_calls t")
          case True
          then show ?thesis using d0 by simp
        next
          case False
          with i have "recv_calls t1 \<le> i" using rp(1) by simp
          with i ih show ?thesis using rp(2) by simp
        qed
      qed
    qed
  qed
qed

lemma receive_packet_unfold:
  "receive_packet packet s =
     (case receive_size_loop (m_pendingPacket s) (os s) of
        (status1, p1, t1) \<Rightarrow>
          if status1 \<noteq> Done then (status1, clear packet, s\<lparr>m_pendingPacket := p1, os := t1\<rparr>)
          else
            (case receive_data_loop (ntohl (Size p1)) p1 t1 of (status2, p2, t2) \<Rightarrow>
               if status2 \<noteq> Done then (status2, clear packet, s\<lparr>m_pendingPacket := p2, os := t2\<rparr>)
               else
                 (Done,
                  (if Data p2 \<noteq> [] then onReceive (clear packet) (Data p2) (length (Data p2))
                   else clear packet),
                  s\<lparr>m_pendingPacket := PendingPacket_init, os := t2\<rparr>)))"
  by (cases "SizeReceived (m_pendingPacket s) < 4")
     (simp_all add: receive_packet_def receive_size_loop_done Let_def split: prod.splits)

lemma receive_packet_cases [consumes 1, case_names prefix_abort data_abort complete]:
  assumes "receive_packet packet s = (st, packet', s')"
  obtains
    (prefix_abort) p1 t1 where
      "receive_size_loop (m_pendingPacket s) (os s) = (st, p1, t1)" "st \<noteq> Done"
      "packet' = clear packet" "s' = s\<lparr>m_pendingPacket := p1, os := t1\<rparr>"
  | (data_abort) p1 t1 p2 t2 where
      "receive_size_loop (m_pendingPacket s) (os s) = (Done, p1, t1)"
      "receive_data_loop (ntohl (Size p1)) p1 t1 = (st, p2, t2)" "st \<noteq> Done"
      "packet' = clear packet" "s' = s\<lparr>m_pendingPacket := p2, os := t2\<rparr>"
  | (complete) p1 t1 p2 t2 where
      "receive_size_loop (m_pendingPacket s) (os s) = (Done, p1, t1)"
      "receive_data_loop (ntohl (Size p1)) p1 t1 = (Done, p2, t2)" "st = Done"
      "packet' = (if Data p2 \<noteq> [] then onReceive (clear packet) (Data p2) (length (Data p2))
                  else clear packet)"
      "s' = s\<lparr>m_pendingPacket := PendingPacket_init, os := t2\<rparr>"
proof -
  obtain st1 p1 t1 where l1: "receive_size_loop (m_pendingPacket s) (os s) = (st1, p1, t1)"
    by (cases "receive_size_loop (m_pendingPacket s) (os s)") auto
  obtain st2 p2 t2 where l2: "receive_data_loop (ntohl (Size p1)) p1 t1 = (st2, p2, t2)"
    by (cases "receive_data_loop (ntohl (Size p1)) p1 t1") auto
  show thesis
  proof (cases "st1 = Done")
    case False
    then show thesis
      using assms l1 prefix_abort by (simp add: receive_packet_unfold)
  next
    case True
    show thesis
    proof (cases "st2 = Done")
      case False
      then show thesis
        using assms l1 l2 True data_abort by (simp add: receive_packet_unfold)
    next
      case Done2: True
      then show thesis
        using assms l1 l2 True complete by (simp add: receive_packet_unfold)
    qed
  qed
qed

lemma append_eq_prefix:
  assumes "xs @ a = ys @ b" and "length ys \<le> length xs"
  shows "\<exists>bs. xs = ys @ bs"
  using assms by (auto simp: append_eq_append_conv2)

lemma ntohl_zero [simp]: "ntohl [0, 0, 0, 0] = 0"
  by (simp add: ntohl_def)

lemma pending_inv_init [simp]: "pending_inv PendingPacket_init"
  by (simp add: pending_inv_def PendingPacket_init_def)

lemma receive_packet_pending_inv:
  assumes "receive_packet packet s = (st, packet', s')" and "pending_inv (m_pendingPacket s)"
  shows "pending_inv (m_pendingPacket s')"
  using assms(1)
proof (cases rule: receive_packet_cases)
  case (prefix_abort p1 t1)
  have len: "length (Size (m_pendingPacket s)) = 4" using assms(2) by (simp add: pending_inv_def)
  note sp = receive_size_loop_props [OF prefix_abort(1) len]
  have "SizeReceived (m_pendingPacket s) < 4" using sp prefix_abort(2) by auto
  then have "Data (m_pendingPacket s) = []" using assms(2) by (simp add: pending_inv_def)
  then show ?thesis using sp prefix_abort(2,4) by (simp add: pending_inv_def)
next
  case (data_abort p1 t1 p2 t2)
  have len: "length (Size (m_pendingPacket s)) = 4" using assms(2) by (simp add: pending_inv_def)
  note sp = receive_size_loop_props [OF data_abort(1) len]
  note dp = receive_data_loop_props [OF data_abort(2)]
  have "SizeReceived p1 = 4" using sp assms(2) by (simp add: pending_inv_def)
  then show ?thesis using sp dp data_abort(3,5) by (simp add: pending_inv_def)
next
  case (complete p1 t1 p2 t2)
  then show ?thesis by simp
qed

lemma pending_inv_absorb:
  assumes "pending_inv p" and "wants_chunk p"
    and "receive NonNull (chunk_capacity p) t = (Done, n, bs, t1)"
  shows "pending_inv (absorb p bs)"
proof -
  note rp = receive_NonNull_props [OF assms(3)]
  show ?thesis
  proof (cases "SizeReceived p < 4")
    case True
    have fit: "SizeReceived p + length bs \<le> length (Size p)"
      using rp(4,5) True assms(1) by (simp add: chunk_capacity_def pending_inv_def)
    show ?thesis
      using True assms(1) fit length_write_bytes [OF fit]
      by (simp add: absorb_def pending_inv_def)
  next
    case False
    then have "length (Data p) < ntohl (Size p)"
      using assms(2) by (simp add: wants_chunk_def)
    moreover have "length bs \<le> ntohl (Size p) - length (Data p)"
      using rp(4,5) False by (simp add: chunk_capacity_def)
    ultimately show ?thesis
      using False assms(1) by (simp add: absorb_def pending_inv_def)
  qed
qed

lemma reachable_pending_inv: "reachable s \<Longrightarrow> pending_inv (m_pendingPacket s)"
proof (induction rule: reachable.induct)
  case (reachable_init s)
  then show ?case by simp
next
  case (reachable_receive s packet status packet' s')
  then show ?case using receive_packet_pending_inv by blast
next
  case (reachable_transport s t)
  then show ?case by simp
next
  case (reachable_chunk s n bytes t)
  then show ?case using pending_inv_absorb by simp
qed

lemma receive_packet_abort_props:
  assumes "receive_packet packet s = (st, packet', s')" and "st \<noteq> Done"
    and "pending_inv (m_pendingPacket s)"
  shows "collected (m_pendingPacket s') @ inbound (os s') =
           collected (m_pendingPacket s) @ inbound (os s)"
    and "inbound (os s') = inbound (os s) \<longrightarrow> m_pendingPacket s' = m_pendingPacket s"
    and "recv_calls (os s) < recv_calls (os s')"
    and "st = failed_chunk_status (recv_oracle (os s) (recv_calls (os s') - 1))"
    and "\<forall>i. recv_calls (os s) \<le> i \<and> i < recv_calls (os s') - 1
           \<longrightarrow> is_data (recv_oracle (os s) i)"
    and "packet' = clear packet"
proof -
  let ?p = "m_pendingPacket s" and ?t = "os s"
  have len: "length (Size ?p) = 4" and sr4: "SizeReceived ?p \<le> 4"
    using assms(3) by (simp_all add: pending_inv_def)
  have all: "(collected (m_pendingPacket s') @ inbound (os s') = collected ?p @ inbound ?t) \<and>
    (inbound (os s') = inbound ?t \<longrightarrow> m_pendingPacket s' = ?p) \<and>
    recv_calls ?t < recv_calls (os s') \<and>
    st = failed_chunk_status (recv_oracle ?t (recv_calls (os s') - 1)) \<and>
    (\<forall>i. recv_calls ?t \<le> i \<and> i < recv_calls (os s') - 1 \<longrightarrow> is_data (recv_oracle ?t i)) \<and>
    packet' = clear packet"
    using assms(1)
  proof (cases rule: receive_packet_cases)
    case (prefix_abort p1 t1)
    note sp = receive_size_loop_props [OF prefix_abort(1) len]
    note sc = receive_size_loop_calls [OF prefix_abort(1)]
    have lt: "SizeReceived ?p < 4" using sp prefix_abort(2) by auto
    then have d: "Data ?p = []" "Data p1 = []" using assms(3) sp by (simp_all add: pending_inv_def)
    have c: "take (SizeReceived p1) (Size p1) @ inbound t1 =
        take (SizeReceived ?p) (Size ?p) @ inbound ?t" using conjunct1 [OF sp] .
    have b1: "length (Size p1) = 4" "SizeReceived p1 \<le> 4" using sp sr4 by simp_all
    have l: "SizeReceived p1 + length (inbound t1) = SizeReceived ?p + length (inbound ?t)"
      using arg_cong [OF c, of length] b1 len sr4 by simp
    have same: "SizeReceived p1 = SizeReceived ?p \<longrightarrow> p1 = ?p" using sp by simp
    have self: "inbound t1 = inbound ?t \<longrightarrow> p1 = ?p" using l same by auto
    show ?thesis
      using c d self sp sc prefix_abort(2,3,4) by (simp add: collected_def)
  next
    case (data_abort p1 t1 p2 t2)
    note sp = receive_size_loop_props [OF data_abort(1) len]
    note sc = receive_size_loop_calls [OF data_abort(1)]
    note dp = receive_data_loop_props [OF data_abort(2)]
    note dc = receive_data_loop_calls [OF data_abort(2)]
    have sr1: "SizeReceived p1 = 4" using sp sr4 by simp
    have d1: "SizeReceived ?p < 4 \<longrightarrow> Data ?p = []"
      using assms(3) by (simp add: pending_inv_def)
    have c1: "take (SizeReceived p1) (Size p1) @ inbound t1 =
        take (SizeReceived ?p) (Size ?p) @ inbound ?t" using conjunct1 [OF sp] .
    have c2: "Data p2 @ inbound t2 = Data p1 @ inbound t1" using conjunct1 [OF dp] .
    have dd: "Data p1 = Data ?p" using sp by simp
    have same: "SizeReceived ?p = 4 \<Longrightarrow> p1 = ?p" using sp sr1 by simp
    have cons: "collected p2 @ inbound t2 = collected ?p @ inbound ?t"
    proof (cases "SizeReceived ?p < 4")
      case True
      then have "Data ?p = []" using d1 by simp
      then have "Data p1 = []" using dd by simp
      then show ?thesis using c1 c2 dp \<open>Data ?p = []\<close> by (simp add: collected_def)
    next
      case False
      then have "SizeReceived ?p = 4" using sr4 by simp
      then have "p1 = ?p" by (rule same)
      moreover have "inbound t1 = inbound ?t" using c1 \<open>p1 = ?p\<close> by simp
      ultimately show ?thesis using c2 dp by (simp add: collected_def)
    qed
    have b1: "length (Size p1) = 4" using sp by simp
    have l1: "4 + length (inbound t1) = SizeReceived ?p + length (inbound ?t)"
      using arg_cong [OF c1, of length] b1 len sr1 sr4 by simp
    have l2: "length (Data p2) + length (inbound t2) = length (Data p1) + length (inbound t1)"
      using arg_cong [OF c2, of length] by simp
    have self: "inbound t2 = inbound ?t \<longrightarrow> p2 = ?p"
    proof
      assume e: "inbound t2 = inbound ?t"
      have "length (Data p1) \<le> length (Data p2)" using dp by simp
      with l1 l2 e sr4 have "SizeReceived ?p = 4" "length (Data p2) = length (Data p1)" by simp_all
      then show "p2 = ?p" using same dp by simp
    qed
    have calls: "\<forall>i. recv_calls ?t \<le> i \<and> i < recv_calls t2 - 1 \<longrightarrow> is_data (recv_oracle ?t i)"
    proof (intro allI impI)
      fix i assume i: "recv_calls ?t \<le> i \<and> i < recv_calls t2 - 1"
      show "is_data (recv_oracle ?t i)"
      proof (cases "i < recv_calls t1")
        case True
        then show ?thesis using sc i by simp
      next
        case False
        then have "recv_calls t1 \<le> i" by simp
        then have "is_data (recv_oracle t1 i)" using dc i data_abort(3) by simp
        then show ?thesis using sp by simp
      qed
    qed
    have rc: "recv_calls ?t < recv_calls t2" using sp dp data_abort(3) by simp
    have fs: "st = failed_chunk_status (recv_oracle ?t (recv_calls t2 - 1))"
      using sp dp data_abort(3) by simp
    show ?thesis
      using cons self calls rc fs data_abort(4,5) by simp
  next
    case (complete p1 t1 p2 t2)
    then show ?thesis using assms(2) by simp
  qed
  show "collected (m_pendingPacket s') @ inbound (os s') =
           collected (m_pendingPacket s) @ inbound (os s)"
    and "inbound (os s') = inbound (os s) \<longrightarrow> m_pendingPacket s' = m_pendingPacket s"
    and "recv_calls (os s) < recv_calls (os s')"
    and "st = failed_chunk_status (recv_oracle (os s) (recv_calls (os s') - 1))"
    and "\<forall>i. recv_calls (os s) \<le> i \<and> i < recv_calls (os s') - 1
           \<longrightarrow> is_data (recv_oracle (os s) i)"
    and "packet' = clear packet"
    using all by blast+
qed

text \<open>The equations that evaluate the receive path on a concrete socket.\<close>

lemmas eval_defs = receive_packet_def receive_size_loop.simps receive_data_loop.simps receive_def
  recv_def write_bytes_def Let_def INT_MAX_def mock_transport_def TcpSocket_init_def
  PendingPacket_init_def ntohl_def clear_def onReceive_def byte_by_byte_def stalling_at_def
  accept_all_def collected_def send_stalling_at_def
  send_packet_def onSend_def send_def send_loop.simps sendRaw_def htonl_def framed_def


subsection \<open>The send loop\<close>

lemma sendRaw_accept:
  assumes "send_oracle t (send_calls t) = SendAccept k"
  shows "sendRaw t bs len =
    (int (min (max 1 k) (min len INT_MAX)),
     t\<lparr>outbound := outbound t @ take (min (max 1 k) (min len INT_MAX)) bs,
       send_calls := Suc (send_calls t)\<rparr>)"
  using assms by (simp add: sendRaw_def Let_def)

lemma sendRaw_fail:
  assumes "send_oracle t (send_calls t) = SendFail e"
  shows "sendRaw t bs len = (- 1, t\<lparr>send_calls := Suc (send_calls t), errno := e\<rparr>)"
  using assms by (simp add: sendRaw_def)

lemma send_loop_done: "\<not> sent < sz \<Longrightarrow> send_loop data sz sent t = (Done, sent, t)"
  by (simp add: send_loop.simps)

lemma send_loop_accept:
  assumes "sent < sz" and "send_oracle t (send_calls t) = SendAccept k"
  shows "send_loop data sz sent t =
    send_loop data sz (sent + min (max 1 k) (min (sz - sent) INT_MAX))
      (t\<lparr>outbound := outbound t @ take (min (max 1 k) (min (sz - sent) INT_MAX)) (drop sent data),
         send_calls := Suc (send_calls t)\<rparr>)"
  using assms by (subst send_loop.simps) (simp add: sendRaw_accept)

lemma send_loop_fail:
  assumes "sent < sz" and "send_oracle t (send_calls t) = SendFail e"
  shows "send_loop data sz sent t =
    (if getErrorStatus e = NotReady \<and> sent \<noteq> 0 then Partial else getErrorStatus e, sent,
     t\<lparr>send_calls := Suc (send_calls t), errno := e\<rparr>)"
  using assms by (subst send_loop.simps) (simp add: sendRaw_fail Let_def)

lemma send_loop_props:
  assumes "send_loop data sz sent t = (st, sent', t')" and "sent \<le> sz"
  shows "outbound t' = outbound t @ take (sent' - sent) (drop sent data) \<and>
         sent \<le> sent' \<and> sent' \<le> sz \<and>
         (st = Done \<longrightarrow> sent' = sz) \<and> (st \<noteq> Done \<longrightarrow> sent' < sz) \<and>
         send_oracle t' = send_oracle t \<and> send_calls t \<le> send_calls t' \<and>
         inbound t' = inbound t \<and>
         (st \<noteq> Done \<longrightarrow> send_calls t < send_calls t' \<and>
            \<not> is_accept (send_oracle t (send_calls t' - 1)) \<and>
            st = failed_send_status (send_oracle t (send_calls t' - 1)) sent') \<and>
         (\<forall>i. send_calls t \<le> i \<and> i < send_calls t' - (if st = Done then 0 else 1)
            \<longrightarrow> is_accept (send_oracle t i))"
  using assms
proof (induction data sz sent t rule: send_loop.induct)
  case (1 data sz sent t)
  show ?case
  proof (cases "sent < sz")
    case False
    with "1.prems" show ?thesis by (auto simp add: send_loop_done)
  next
    case True
    show ?thesis
    proof (cases "send_oracle t (send_calls t)")
      case (SendFail e)
      show ?thesis
        using "1.prems" True send_loop_fail [OF True SendFail] SendFail
        by (auto split: if_splits)
    next
      case (SendAccept k)
      let ?n = "min (max 1 k) (min (sz - sent) INT_MAX)"
      let ?t1 = "t\<lparr>outbound := outbound t @ take ?n (drop sent data),
         send_calls := Suc (send_calls t)\<rparr>"
      have npos: "0 < ?n" using True by (simp add: INT_MAX_def)
      have nle: "sent + ?n \<le> sz" using True by simp
      have raw: "sendRaw t (drop sent data) (sz - sent) = (int ?n, ?t1)"
        using sendRaw_accept [OF SendAccept] by simp
      have nn: "\<not> int ?n < 0" by simp
      have res: "send_loop data sz (sent + nat (int ?n)) ?t1 = (st, sent', t')"
        using send_loop_accept [OF True SendAccept] "1.prems"(1) by simp
      have le': "sent + nat (int ?n) \<le> sz" using nle by simp
      note ih = "1.IH" [OF True raw [symmetric] nn res le']
      have s1: "sent + ?n \<le> sent'" using ih by simp
      have ob: "outbound t' = outbound t @ take (sent' - sent) (drop sent data)"
      proof -
        have "outbound t' = (outbound t @ take ?n (drop sent data)) @
            take (sent' - (sent + ?n)) (drop (sent + ?n) data)"
          using ih by simp
        also have "\<dots> = outbound t @ take (?n + (sent' - (sent + ?n))) (drop sent data)"
          by (simp add: take_add add.commute)
        also have "?n + (sent' - (sent + ?n)) = sent' - sent" using s1 by simp
        finally show ?thesis .
      qed
      have calls: "\<forall>i. send_calls t \<le> i \<and> i < send_calls t' - (if st = Done then 0 else 1)
            \<longrightarrow> is_accept (send_oracle t i)"
      proof (intro allI impI)
        fix i
        assume i: "send_calls t \<le> i \<and> i < send_calls t' - (if st = Done then 0 else 1)"
        show "is_accept (send_oracle t i)"
        proof (cases "i = send_calls t")
          case True
          then show ?thesis using SendAccept by simp
        next
          case False
          with i have "send_calls ?t1 \<le> i" by simp
          with i ih show ?thesis by simp
        qed
      qed
      have fl: "st \<noteq> Done \<longrightarrow> send_calls t < send_calls t' \<and>
            \<not> is_accept (send_oracle t (send_calls t' - 1)) \<and>
            st = failed_send_status (send_oracle t (send_calls t' - 1)) sent'"
        using ih by simp
      have rest: "sent' \<le> sz \<and> (st = Done \<longrightarrow> sent' = sz) \<and> (st \<noteq> Done \<longrightarrow> sent' < sz) \<and>
         send_oracle t' = send_oracle t \<and> send_calls t \<le> send_calls t' \<and>
         inbound t' = inbound t"
        using ih by simp
      show ?thesis
        using ob s1 fl rest calls by simp
    qed
  qed
qed


lemma send_loop_status:
  assumes "send_loop data sz 0 t = (st, sent', t')"
  shows "(st = Partial \<longleftrightarrow>
            send_calls t < send_calls t' \<and>
            send_would_block (send_oracle t (send_calls t' - 1)) \<and> 0 < sent') \<and>
         (st = NotReady \<longleftrightarrow>
            send_calls t < send_calls t' \<and>
            send_would_block (send_oracle t (send_calls t' - 1)) \<and> sent' = 0)"
proof -
  note p = send_loop_props [OF assms le0]
  show ?thesis
  proof (cases "st = Done")
    case True
    have "send_calls t < send_calls t' \<Longrightarrow> is_accept (send_oracle t (send_calls t' - 1))"
      using p True by simp
    then have "\<not> (send_calls t < send_calls t' \<and>
        send_would_block (send_oracle t (send_calls t' - 1)))"
      by (cases "send_oracle t (send_calls t' - 1)") auto
    then show ?thesis using True by auto
  next
    case False
    then have c: "send_calls t < send_calls t'"
      and na: "\<not> is_accept (send_oracle t (send_calls t' - 1))"
      and st: "st = failed_send_status (send_oracle t (send_calls t' - 1)) sent'"
      using p by simp_all
    obtain e where e: "send_oracle t (send_calls t' - 1) = SendFail e"
      using na by (cases "send_oracle t (send_calls t' - 1)") auto
    show ?thesis
      using c st e by (cases e) auto
  qed
qed

lemma send_Some:
  assumes "0 < sz" and "sz \<le> length buf"
  shows "send (Some buf) sz sent0 t = Inr (send_loop buf sz 0 t)"
  using assms by (simp add: send_def)

lemma send_cases:
  assumes "send data sz sent0 t = Inr (st, sent, t')"
  shows "(st = Error \<and> sent = sent0 \<and> t' = t \<and> (data = None \<or> sz = 0)) \<or>
         (\<exists>buf. data = Some buf \<and> 0 < sz \<and> sz \<le> length buf \<and>
            send_loop buf sz 0 t = (st, sent, t'))"
  using assms by (cases data) (auto simp: send_def split: if_splits)

lemma send_packet_unfold:
  "send_packet packet s =
     (case send (Some (drop (m_sendPos packet) (framed (m_data packet))))
             (nat ((int (length (framed (m_data packet))) - int (m_sendPos packet))
                   mod 18446744073709551616)) 0 (os s) of
        Inl f \<Rightarrow> Inl f
      | Inr (status, sent, t) \<Rightarrow>
          Inr (status,
               (if status = Partial then packet\<lparr>m_sendPos := m_sendPos packet + sent\<rparr>
                else if status = Done then packet\<lparr>m_sendPos := 0\<rparr>
                else packet),
               s\<lparr>m_blockToSendBuffer := framed (m_data packet), os := t\<rparr>))"
  unfolding send_packet_def onSend_def framed_def Let_def
  by (simp split: sum.splits prod.splits)

lemma send_packet_props:
  assumes "send_packet packet s = Inr (st, packet', s')"
  shows "\<exists>n. outbound (os s') =
             outbound (os s) @ take n (drop (m_sendPos packet) (framed (m_data packet))) \<and>
           m_sendPos packet + n \<le> max (m_sendPos packet) (length (framed (m_data packet))) \<and>
           m_sendPos packet' =
             (if st = Partial then m_sendPos packet + n
              else if st = Done then 0 else m_sendPos packet) \<and>
           (st = Partial \<longrightarrow> 0 < n \<and> m_sendPos packet' < length (framed (m_data packet))) \<and>
           (st = NotReady \<longrightarrow> n = 0) \<and>
           (st = Done \<and> length (framed (m_data packet)) < 18446744073709551616 \<longrightarrow>
              m_sendPos packet + n = length (framed (m_data packet))) \<and>
           m_data packet' = m_data packet \<and>
           send_oracle (os s') = send_oracle (os s) \<and>
           send_calls (os s) \<le> send_calls (os s') \<and>
           (st = Partial \<or> st = NotReady \<longrightarrow> send_calls (os s) < send_calls (os s'))"
proof -
  let ?block = "framed (m_data packet)"
  let ?pos = "m_sendPos packet"
  let ?buf = "drop ?pos ?block"
  let ?len = "nat ((int (length ?block) - int ?pos) mod 18446744073709551616)"
  obtain sent t1 where r: "send (Some ?buf) ?len 0 (os s) = Inr (st, sent, t1)"
    and pk: "packet' = (if st = Partial then packet\<lparr>m_sendPos := ?pos + sent\<rparr>
                else if st = Done then packet\<lparr>m_sendPos := 0\<rparr> else packet)"
    and s': "s' = s\<lparr>m_blockToSendBuffer := ?block, os := t1\<rparr>"
    using assms unfolding send_packet_unfold
    by (auto split: sum.splits prod.splits)
  from send_cases [OF r] show ?thesis
  proof
    assume "st = Error \<and> sent = 0 \<and> t1 = os s \<and> (Some ?buf = None \<or> ?len = 0)"
    then show ?thesis using pk s' by (intro exI [of _ 0]) simp
  next
    assume "\<exists>buf. Some ?buf = Some buf \<and> 0 < ?len \<and> ?len \<le> length buf \<and>
            send_loop buf ?len 0 (os s) = (st, sent, t1)"
    then have pos: "0 < ?len" and fit: "?len \<le> length ?buf"
      and l: "send_loop ?buf ?len 0 (os s) = (st, sent, t1)"
      by auto
    note p = send_loop_props [OF l le0]
    note q = send_loop_status [OF l]
    have lt: "?pos < length ?block" using fit pos by auto
    have len: "length ?block < 18446744073709551616 \<Longrightarrow> ?len = length ?block - ?pos"
      using lt by (simp add: nat_diff_distrib' flip: of_nat_diff)
    have a: "outbound t1 = outbound (os s) @ take sent ?buf" using p by simp
    have b: "sent \<le> ?len" "st = Done \<longrightarrow> sent = ?len" "st \<noteq> Done \<longrightarrow> sent < ?len"
      using p by simp_all
    have c: "?pos + sent \<le> length ?block" using b(1) fit lt by simp
    have d: "st = Partial \<longrightarrow> 0 < sent \<and> ?pos + sent < length ?block"
      using q b(3) fit by auto
    have e: "st = Partial \<or> st = NotReady \<longrightarrow> send_calls (os s) < send_calls t1"
      using q by auto
    have f: "st = NotReady \<longrightarrow> sent = 0"
      using q by auto
    show ?thesis
      using a b(2) c d e f len p pk s' by (intro exI [of _ sent]) auto
  qed
qed


lemma send_total:
  assumes "sz \<le> length buf"
  shows "\<exists>r. send (Some buf) sz sent0 t = Inr r"
proof (cases "sz = 0")
  case True
  then show ?thesis by (intro exI [of _ "(Error, sent0, t)"]) (simp add: send_def)
next
  case False
  then show ?thesis
    using assms by (intro exI [of _ "send_loop buf sz 0 t"]) (simp add: send_def)
qed

lemma send_packet_total:
  assumes "m_sendPos packet \<le> length (framed (m_data packet))"
    and "length (framed (m_data packet)) < 18446744073709551616"
  shows "\<exists>st packet' s'. send_packet packet s = Inr (st, packet', s')"
proof -
  let ?block = "framed (m_data packet)"
  let ?pos = "m_sendPos packet"
  let ?len = "nat ((int (length ?block) - int ?pos) mod 18446744073709551616)"
  have len: "?len = length ?block - ?pos"
    using assms by (simp add: nat_diff_distrib' flip: of_nat_diff)
  have "\<exists>r. send (Some (drop ?pos ?block)) ?len 0 (os s) = Inr r"
    unfolding len by (rule send_total) simp
  then obtain r where "send (Some (drop ?pos ?block)) ?len 0 (os s) = Inr r" by blast
  then show ?thesis
    unfolding send_packet_unfold by (cases r) auto
qed

lemma send_packet_resume:
  assumes "send_packet packet s = Inr (st, packet', s')"
    and "outbound (os s) = pre @ take (m_sendPos packet) (framed (m_data packet))"
    and "m_sendPos packet \<le> length (framed (m_data packet))"
  shows "(st = Partial \<or> st = NotReady \<longrightarrow>
            outbound (os s') = pre @ take (m_sendPos packet') (framed (m_data packet')) \<and>
            m_sendPos packet' \<le> length (framed (m_data packet'))) \<and>
         (st = Done \<and> length (framed (m_data packet)) < 18446744073709551616 \<longrightarrow>
            outbound (os s') = pre @ framed (m_data packet))"
proof -
  let ?f = "framed (m_data packet)"
  obtain n where n: "outbound (os s') = outbound (os s) @ take n (drop (m_sendPos packet) ?f)"
    "m_sendPos packet' =
             (if st = Partial then m_sendPos packet + n
              else if st = Done then 0 else m_sendPos packet)"
    "st = Partial \<longrightarrow> 0 < n \<and> m_sendPos packet' < length ?f"
    "st = NotReady \<longrightarrow> n = 0"
    "st = Done \<and> length ?f < 18446744073709551616 \<longrightarrow> m_sendPos packet + n = length ?f"
    "m_data packet' = m_data packet"
    using send_packet_props [OF assms(1)] by blast
  have o: "outbound (os s') = pre @ take (m_sendPos packet + n) ?f"
    using n(1) assms(2) by (simp add: take_add)
  show ?thesis
    using o n(2-6) assms(3) by auto
qed


subsection \<open>A call of receive, chunk by chunk\<close>

lemma receive_packet_chunk_abort:
  assumes "wants_chunk (m_pendingPacket s)"
    and "receive NonNull (chunk_capacity (m_pendingPacket s)) (os s) = (st, n, bs, t1)"
    and "st \<noteq> Done"
  shows "receive_packet packet s = (st, clear packet, s\<lparr>os := t1\<rparr>)"
proof -
  let ?p = "m_pendingPacket s"
  have z: "n = 0" "bs = []" using receive_NonNull_fail [OF assms(2,3)] by simp_all
  show ?thesis
  proof (cases "SizeReceived ?p < 4")
    case True
    have r: "receive NonNull (4 - SizeReceived ?p) (os s) = (st, n, bs, t1)"
      using assms(2) True by (simp add: chunk_capacity_def)
    have "receive_size_loop ?p (os s) = (st, ?p, t1)"
      using receive_size_loop_step [OF True r] assms(3) z by simp
    then show ?thesis using assms(3) by (simp add: receive_packet_unfold)
  next
    case False
    have lt: "length (Data ?p) < ntohl (Size ?p)"
      using assms(1) False by (simp add: wants_chunk_def)
    have r: "receive NonNull (min (ntohl (Size ?p) - length (Data ?p)) 1024) (os s) =
        (st, n, bs, t1)"
      using assms(2) False by (simp add: chunk_capacity_def)
    have "receive_data_loop (ntohl (Size ?p)) ?p (os s) = (st, ?p, t1)"
      using receive_data_loop_step [OF lt r] assms(3) by simp
    then show ?thesis
      using assms(3) False by (simp add: receive_packet_unfold receive_size_loop_done)
  qed
qed

lemma receive_packet_chunk_done:
  assumes "wants_chunk (m_pendingPacket s)"
    and "receive NonNull (chunk_capacity (m_pendingPacket s)) (os s) = (Done, n, bs, t1)"
  shows "receive_packet packet s =
    receive_packet packet (s\<lparr>m_pendingPacket := absorb (m_pendingPacket s) bs, os := t1\<rparr>)"
proof -
  let ?p = "m_pendingPacket s"
  note rp = receive_NonNull_props [OF assms(2)]
  show ?thesis
  proof (cases "SizeReceived ?p < 4")
    case True
    have r: "receive NonNull (4 - SizeReceived ?p) (os s) = (Done, n, bs, t1)"
      using assms(2) True by (simp add: chunk_capacity_def)
    have a: "absorb ?p bs = ?p\<lparr>Size := write_bytes (Size ?p) (SizeReceived ?p) bs,
        SizeReceived := SizeReceived ?p + n\<rparr>"
      using True rp(4) by (simp add: absorb_def)
    have "receive_size_loop ?p (os s) = receive_size_loop (absorb ?p bs) t1"
      using receive_size_loop_step [OF True r] a by simp
    then show ?thesis by (simp add: receive_packet_unfold split: prod.splits)
  next
    case False
    have lt: "length (Data ?p) < ntohl (Size ?p)"
      using assms(1) False by (simp add: wants_chunk_def)
    have r: "receive NonNull (min (ntohl (Size ?p) - length (Data ?p)) 1024) (os s) =
        (Done, n, bs, t1)"
      using assms(2) False by (simp add: chunk_capacity_def)
    have a: "absorb ?p bs = ?p\<lparr>Data := Data ?p @ bs\<rparr>"
      using False by (simp add: absorb_def)
    have "receive_data_loop (ntohl (Size ?p)) ?p (os s) =
        receive_data_loop (ntohl (Size ?p)) (absorb ?p bs) t1"
      using receive_data_loop_step [OF lt r] a by simp
    then show ?thesis
      using False a
      by (simp add: receive_packet_unfold receive_size_loop_done split: prod.splits)
  qed
qed

lemma receive_packet_no_chunk:
  assumes "\<not> wants_chunk (m_pendingPacket s)"
  shows "receive_packet packet s =
    (Done,
     (if Data (m_pendingPacket s) \<noteq> []
      then onReceive (clear packet) (Data (m_pendingPacket s)) (length (Data (m_pendingPacket s)))
      else clear packet),
     s\<lparr>m_pendingPacket := PendingPacket_init\<rparr>)"
  using assms
  by (simp add: wants_chunk_def receive_packet_unfold receive_size_loop_done
      receive_data_loop_done)

lemma receive_packet_done_props:
  assumes "receive_packet packet s = (Done, packet', s')"
    and "pending_inv (m_pendingPacket s)"
  shows "\<forall>i. recv_calls (os s) \<le> i \<and> i < recv_calls (os s') \<longrightarrow> is_data (recv_oracle (os s) i)"
    and "\<exists>size4. length size4 = 4 \<and>
           take (SizeReceived (m_pendingPacket s)) size4 =
             take (SizeReceived (m_pendingPacket s)) (Size (m_pendingPacket s)) \<and>
           collected (m_pendingPacket s) @ inbound (os s) =
             size4 @ m_data packet' @ inbound (os s') \<and>
           length (m_data packet') = ntohl size4"
    and "\<exists>bs. m_data packet' = Data (m_pendingPacket s) @ bs"
    and "m_pendingPacket s' = PendingPacket_init"
proof -
  let ?p = "m_pendingPacket s"
  have len: "length (Size ?p) = 4" and sr4: "SizeReceived ?p \<le> 4"
    using assms(2) by (simp_all add: pending_inv_def)
  have all: "(\<forall>i. recv_calls (os s) \<le> i \<and> i < recv_calls (os s') \<longrightarrow>
        is_data (recv_oracle (os s) i)) \<and>
    (\<exists>size4. length size4 = 4 \<and>
           take (SizeReceived ?p) size4 = take (SizeReceived ?p) (Size ?p) \<and>
           collected ?p @ inbound (os s) = size4 @ m_data packet' @ inbound (os s') \<and>
           length (m_data packet') = ntohl size4) \<and>
    (\<exists>bs. m_data packet' = Data ?p @ bs) \<and>
    m_pendingPacket s' = PendingPacket_init"
    using assms(1)
  proof (cases rule: receive_packet_cases)
    case (complete p1 t1 p2 t2)
    note sp = receive_size_loop_props [OF complete(1) len]
    note dp = receive_data_loop_props [OF complete(2)]
    have sc: "\<forall>i. recv_calls (os s) \<le> i \<and> i < recv_calls t1 \<longrightarrow> is_data (recv_oracle (os s) i)"
      using receive_size_loop_calls [OF complete(1)] by simp
    have dc: "\<forall>i. recv_calls t1 \<le> i \<and> i < recv_calls t2 \<longrightarrow> is_data (recv_oracle t1 i)"
      using receive_data_loop_calls [OF complete(2)] by simp
    have o: "recv_oracle t1 = recv_oracle (os s)" using sp by simp
    have calls: "\<forall>i. recv_calls (os s) \<le> i \<and> i < recv_calls (os s') \<longrightarrow>
        is_data (recv_oracle (os s) i)"
    proof (intro allI impI)
      fix i assume i: "recv_calls (os s) \<le> i \<and> i < recv_calls (os s')"
      show "is_data (recv_oracle (os s) i)"
      proof (cases "i < recv_calls t1")
        case True
        then show ?thesis using sc i by simp
      next
        case False
        then show ?thesis using dc i o complete(5) by simp
      qed
    qed
    have sr1: "SizeReceived p1 = 4" using sp sr4 by simp
    have b1: "length (Size p1) = 4" using sp by simp
    have c1: "take (SizeReceived p1) (Size p1) @ inbound t1 =
        take (SizeReceived ?p) (Size ?p) @ inbound (os s)" using conjunct1 [OF sp] .
    then have c1': "Size p1 @ inbound t1 = take (SizeReceived ?p) (Size ?p) @ inbound (os s)"
      using sr1 b1 by simp
    have c2: "Data p2 @ inbound t2 = Data p1 @ inbound t1" using conjunct1 [OF dp] .
    have dd: "Data p1 = Data ?p" using sp by simp
    have same: "SizeReceived ?p = 4 \<Longrightarrow> p1 = ?p" using sp sr1 by simp
    have d0: "SizeReceived ?p < 4 \<Longrightarrow> Data ?p = []"
      using assms(2) by (simp add: pending_inv_def)
    have cons: "collected ?p @ inbound (os s) = Size p1 @ Data p2 @ inbound t2"
    proof (cases "SizeReceived ?p < 4")
      case True
      then have "Data ?p = []" by (rule d0)
      then show ?thesis using c1' c2 dd by (simp add: collected_def)
    next
      case False
      then have e: "SizeReceived ?p = 4" using sr4 by simp
      then have pp: "p1 = ?p" by (rule same)
      have "inbound t1 = inbound (os s)" using c1 pp by simp
      then show ?thesis using c2 pp e len by (simp add: collected_def)
    qed
    have tk: "take (SizeReceived ?p) (Size p1) = take (SizeReceived ?p) (Size ?p)"
    proof -
      have "take (SizeReceived ?p) (Size p1 @ inbound t1) =
          take (SizeReceived ?p) (take (SizeReceived ?p) (Size ?p) @ inbound (os s))"
        using c1' by simp
      then show ?thesis using sr4 b1 len by simp
    qed
    have le1: "length (Data p1) \<le> ntohl (Size p1)"
    proof (cases "SizeReceived ?p < 4")
      case True
      then show ?thesis using d0 dd by simp
    next
      case False
      then have e: "SizeReceived ?p = 4" using sr4 by simp
      then show ?thesis using same assms(2) by (simp add: pending_inv_def)
    qed
    have ln: "length (Data p2) = ntohl (Size p1)" using dp le1 by simp
    have md: "m_data packet' = Data p2"
      using complete(4) by (simp add: onReceive_def clear_def)
    have ex: "\<exists>bs. Data p2 = Data p1 @ bs"
      using append_eq_prefix [OF c2] dp by simp
    show ?thesis
      using calls cons tk ln md ex dd b1 complete(5) by auto
  qed simp_all
  then show "\<forall>i. recv_calls (os s) \<le> i \<and> i < recv_calls (os s') \<longrightarrow>
      is_data (recv_oracle (os s) i)"
    and "\<exists>size4. length size4 = 4 \<and>
           take (SizeReceived (m_pendingPacket s)) size4 =
             take (SizeReceived (m_pendingPacket s)) (Size (m_pendingPacket s)) \<and>
           collected (m_pendingPacket s) @ inbound (os s) =
             size4 @ m_data packet' @ inbound (os s') \<and>
           length (m_data packet') = ntohl size4"
    and "\<exists>bs. m_data packet' = Data (m_pendingPacket s) @ bs"
    and "m_pendingPacket s' = PendingPacket_init"
    by blast+
qed


subsection \<open>The round trip\<close>

lemma length_htonl [simp]: "length (htonl v) = 4"
  by (simp add: htonl_def)

lemma ntohl_htonl:
  assumes "v < 4294967296"
  shows "ntohl (htonl v) = v"
proof -
  define v1 where "v1 = v div 256"
  define v2 where "v2 = v1 div 256"
  define v3 where "v3 = v2 div 256"
  have e2: "v div 65536 = v2"
    using div_mult2_eq [of v 256 256] by (simp add: v1_def v2_def)
  have e3: "v div 16777216 = v3"
    using div_mult2_eq [of v 65536 256] e2 by (simp add: v3_def)
  have "v div 16777216 < 256"
    using assms by (simp add: div_less_iff_less_mult)
  then have s3: "v3 mod 256 = v3" using e3 by simp
  have d1: "v1 * 256 + v mod 256 = v" by (simp add: v1_def)
  have d2: "v2 * 256 + v1 mod 256 = v1" by (simp add: v2_def)
  have d3: "v3 * 256 + v2 mod 256 = v2" by (simp add: v3_def)
  have "unat (of_nat v3 :: byte) = v3 mod 256"
    "unat (of_nat v2 :: byte) = v2 mod 256"
    "unat (of_nat v1 :: byte) = v1 mod 256"
    "unat (of_nat v :: byte) = v mod 256"
    by (simp_all add: unat_of_nat)
  then have "ntohl (htonl v) =
      ((v3 mod 256 * 256 + v2 mod 256) * 256 + v1 mod 256) * 256 + v mod 256"
    using e2 e3 by (simp add: ntohl_def htonl_def v1_def)
  also have "\<dots> = ((v3 * 256 + v2 mod 256) * 256 + v1 mod 256) * 256 + v mod 256"
    using s3 by simp
  also have "\<dots> = (v2 * 256 + v1 mod 256) * 256 + v mod 256"
    using d3 by simp
  also have "\<dots> = v1 * 256 + v mod 256"
    using d2 by simp
  also have "\<dots> = v" by (rule d1)
  finally show ?thesis .
qed

lemma framed_split:
  assumes "size4 @ xs = framed payload @ rest" and "length size4 = 4"
  shows "size4 = htonl (length payload mod 4294967296)" and "xs = payload @ rest"
  using assms by (simp_all add: framed_def)

lemma receive_size_loop_collected:
  assumes "receive_size_loop p t = (st, p1, t1)" and "pending_inv p"
  shows "collected p1 @ inbound t1 = collected p @ inbound t"
proof -
  have len: "length (Size p) = 4" and sr4: "SizeReceived p \<le> 4"
    using assms(2) by (simp_all add: pending_inv_def)
  note sp = receive_size_loop_props [OF assms(1) len]
  have c1: "take (SizeReceived p1) (Size p1) @ inbound t1 =
      take (SizeReceived p) (Size p) @ inbound t" using conjunct1 [OF sp] .
  have dd: "Data p1 = Data p" using sp by simp
  show ?thesis
  proof (cases "SizeReceived p < 4")
    case True
    then have "Data p = []" using assms(2) by (simp add: pending_inv_def)
    then show ?thesis using c1 dd by (simp add: collected_def)
  next
    case False
    then have "receive_size_loop p t = (Done, p, t)" by (rule receive_size_loop_done)
    then show ?thesis using assms(1) by simp
  qed
qed

lemma receive_packet_oracle:
  assumes "receive_packet packet s = (st, packet', s')"
    and "pending_inv (m_pendingPacket s)"
  shows "recv_oracle (os s') = recv_oracle (os s) \<and> recv_calls (os s) \<le> recv_calls (os s')"
proof -
  have len: "length (Size (m_pendingPacket s)) = 4"
    using assms(2) by (simp add: pending_inv_def)
  from assms(1) show ?thesis
  proof (cases rule: receive_packet_cases)
    case (prefix_abort p1 t1)
    note sp = receive_size_loop_props [OF prefix_abort(1) len]
    show ?thesis using sp prefix_abort(4) by simp
  next
    case (data_abort p1 t1 p2 t2)
    note sp = receive_size_loop_props [OF data_abort(1) len]
    note dp = receive_data_loop_props [OF data_abort(2)]
    show ?thesis using sp dp data_abort(5) by simp
  next
    case (complete p1 t1 p2 t2)
    note sp = receive_size_loop_props [OF complete(1) len]
    note dp = receive_data_loop_props [OF complete(2)]
    show ?thesis using sp dp complete(5) by simp
  qed
qed

lemma receive_packet_fragment:
  assumes "receive_packet packet s = (st, packet', s')"
    and "pending_inv (m_pendingPacket s)"
    and "collected (m_pendingPacket s) @ inbound (os s) = framed payload @ rest"
    and "length payload < 4294967296"
    and "\<forall>i\<ge>recv_calls (os s). is_fragment (recv_oracle (os s) i)"
  shows "(st = Done \<or> st = NotReady) \<and>
         ((\<forall>i\<ge>recv_calls (os s). is_data (recv_oracle (os s) i)) \<longrightarrow> st = Done)"
proof -
  let ?p = "m_pendingPacket s" and ?t = "os s"
  have len: "length (Size ?p) = 4" and sr4: "SizeReceived ?p \<le> 4"
    using assms(2) by (simp_all add: pending_inv_def)
  obtain st1 p1 t1 where l1: "receive_size_loop ?p ?t = (st1, p1, t1)"
    by (cases "receive_size_loop ?p ?t") auto
  note sp = receive_size_loop_props [OF l1 len]
  have enough: "4 - SizeReceived ?p \<le> length (inbound ?t)"
  proof (cases "SizeReceived ?p < 4")
    case True
    then have "Data ?p = []" using assms(2) by (simp add: pending_inv_def)
    then have "take (SizeReceived ?p) (Size ?p) @ inbound ?t = framed payload @ rest"
      using assms(3) by (simp add: collected_def)
    from arg_cong [OF this, of length] show ?thesis
      using len sr4 by (simp add: framed_def)
  next
    case False
    then show ?thesis by simp
  qed
  note sf = receive_size_loop_fragment [OF l1 assms(5) enough]
  show ?thesis
  proof (cases "st1 = Done")
    case False
    then have "receive_packet packet s = (st1, clear packet, s\<lparr>m_pendingPacket := p1, os := t1\<rparr>)"
      using l1 by (simp add: receive_packet_unfold)
    then have "st = st1" using assms(1) by simp
    then show ?thesis using sf False by blast
  next
    case True
    have sr1: "SizeReceived p1 = 4" using sp sr4 True by simp
    have b1: "length (Size p1) = 4" using sp by simp
    have "collected p1 @ inbound t1 = framed payload @ rest"
      using receive_size_loop_collected [OF l1 assms(2)] assms(3) by simp
    then have c: "Size p1 @ (Data p1 @ inbound t1) = framed payload @ rest"
      using sr1 b1 by (simp add: collected_def)
    note fs = framed_split [OF c b1]
    have n: "ntohl (Size p1) = length payload"
      using fs(1) assms(4) by (simp add: ntohl_htonl)
    have enough2: "ntohl (Size p1) - length (Data p1) \<le> length (inbound t1)"
      using arg_cong [OF fs(2), of length] n by simp
    have le: "recv_calls ?t \<le> recv_calls t1" using sp by simp
    have o: "recv_oracle t1 = recv_oracle ?t" using sp by simp
    have fr: "\<forall>i\<ge>recv_calls t1. is_fragment (recv_oracle t1 i)"
      using oracle_suffix [OF assms(5) le o] .
    obtain st2 p2 t2 where l2: "receive_data_loop (ntohl (Size p1)) p1 t1 = (st2, p2, t2)"
      by (cases "receive_data_loop (ntohl (Size p1)) p1 t1") auto
    note df = receive_data_loop_fragment [OF l2 fr enough2]
    have "fst (receive_packet packet s) = st2"
      using l1 l2 True by (simp add: receive_packet_unfold)
    then have eq: "st = st2" using assms(1) by simp
    show ?thesis
    proof (intro conjI impI)
      show "st = Done \<or> st = NotReady" using df eq by simp
    next
      assume "\<forall>i\<ge>recv_calls ?t. is_data (recv_oracle ?t i)"
      then have "\<forall>i\<ge>recv_calls t1. is_data (recv_oracle t1 i)"
        using oracle_suffix [OF _ le o] by blast
      then show "st = Done" using df eq by simp
    qed
  qed
qed

lemma receive_packet_stream_done:
  assumes "receive_packet packet s = (Done, packet', s')"
    and "pending_inv (m_pendingPacket s)"
    and "collected (m_pendingPacket s) @ inbound (os s) = framed payload @ rest"
    and "length payload < 4294967296"
  shows "m_data packet' = payload" and "inbound (os s') = rest"
proof -
  obtain size4 where s4: "length size4 = 4"
    and c: "collected (m_pendingPacket s) @ inbound (os s) =
        size4 @ m_data packet' @ inbound (os s')"
    and l: "length (m_data packet') = ntohl size4"
    using receive_packet_done_props(2) [OF assms(1,2)] by blast
  have e: "size4 @ (m_data packet' @ inbound (os s')) = framed payload @ rest"
    using c assms(3) by simp
  note fs = framed_split [OF e s4]
  have "length (m_data packet') = length payload"
    using l fs(1) assms(4) by (simp add: ntohl_htonl)
  then show "m_data packet' = payload" and "inbound (os s') = rest"
    using fs(2) by simp_all
qed

lemma receive_retry_stream:
  assumes "pending_inv (m_pendingPacket s)"
    and "collected (m_pendingPacket s) @ inbound (os s) = framed payload @ rest"
    and "length payload < 4294967296"
    and "\<forall>i\<ge>recv_calls (os s). is_fragment (recv_oracle (os s) i)"
    and "\<forall>i\<ge>recv_calls (os s) + n. is_data (recv_oracle (os s) i)"
  shows "\<exists>packet' s'. receive_retry n packet s = (Done, packet', s') \<and>
           m_data packet' = payload \<and> inbound (os s') = rest"
  using assms
proof (induction n arbitrary: packet s)
  case 0
  obtain st packet' s' where r: "receive_packet packet s = (st, packet', s')"
    by (cases "receive_packet packet s") auto
  have "st = Done"
    using receive_packet_fragment [OF r "0.prems"(1,2,3,4)] "0.prems"(5) by simp
  then show ?case
    using r receive_packet_stream_done [OF _ "0.prems"(1,2,3)] by simp
next
  case (Suc n)
  obtain st packet' s' where r: "receive_packet packet s = (st, packet', s')"
    by (cases "receive_packet packet s") auto
  note f = receive_packet_fragment [OF r Suc.prems(1,2,3,4)]
  show ?case
  proof (cases "st = Done")
    case True
    then show ?thesis
      using r receive_packet_stream_done [OF _ Suc.prems(1,2,3)] by simp
  next
    case False
    then have nr: "st = NotReady" using f by blast
    note ap = receive_packet_abort_props [OF r False Suc.prems(1)]
    have inv': "pending_inv (m_pendingPacket s')"
      using receive_packet_pending_inv [OF r Suc.prems(1)] .
    have str: "collected (m_pendingPacket s') @ inbound (os s') = framed payload @ rest"
      using ap(1) Suc.prems(2) by simp
    have o: "recv_oracle (os s') = recv_oracle (os s)"
      and le: "recv_calls (os s) \<le> recv_calls (os s')"
      using receive_packet_oracle [OF r Suc.prems(1)] by simp_all
    have fr: "\<forall>i\<ge>recv_calls (os s'). is_fragment (recv_oracle (os s') i)"
      using oracle_suffix [OF Suc.prems(4) le o] .
    have le2: "recv_calls (os s) + Suc n \<le> recv_calls (os s') + n"
      using ap(3) by simp
    have da: "\<forall>i\<ge>recv_calls (os s') + n. is_data (recv_oracle (os s') i)"
      using oracle_suffix [OF Suc.prems(5) le2 o] .
    from Suc.IH [OF inv' str Suc.prems(3) fr da, of packet']
    show ?thesis using r nr by simp
  qed
qed

lemma length_framed: "length (framed payload) = 4 + length payload"
  by (simp add: framed_def)

lemma send_packet_fragment:
  assumes "send_packet packet s = Inr (st, packet', s')"
    and "m_sendPos packet < length (framed (m_data packet))"
    and "length (framed (m_data packet)) < 18446744073709551616"
    and "\<forall>i\<ge>send_calls (os s). is_send_fragment (send_oracle (os s) i)"
  shows "(st = Done \<or> st = Partial \<or> st = NotReady) \<and>
         ((\<forall>i\<ge>send_calls (os s). is_accept (send_oracle (os s) i)) \<longrightarrow> st = Done)"
proof -
  let ?block = "framed (m_data packet)"
  let ?pos = "m_sendPos packet"
  let ?len = "nat ((int (length ?block) - int ?pos) mod 18446744073709551616)"
  have len: "?len = length ?block - ?pos"
    using assms(2,3) by (simp add: nat_diff_distrib' flip: of_nat_diff)
  have pos: "0 < ?len" "?len \<le> length (drop ?pos ?block)"
    unfolding len using assms(2) by simp_all
  have sd: "send (Some (drop ?pos ?block)) ?len 0 (os s) =
      Inr (send_loop (drop ?pos ?block) ?len 0 (os s))"
    using pos by (rule send_Some)
  obtain st1 sent t1 where l: "send_loop (drop ?pos ?block) ?len 0 (os s) = (st1, sent, t1)"
    by (cases "send_loop (drop ?pos ?block) ?len 0 (os s)") auto
  have "st = st1"
    using assms(1) unfolding send_packet_unfold sd l by simp
  then have l': "send_loop (drop ?pos ?block) ?len 0 (os s) = (st, sent, t1)"
    using l by simp
  note p = send_loop_props [OF l' le0]
  show ?thesis
  proof (cases "st = Done")
    case True
    then show ?thesis by simp
  next
    case False
    let ?e = "send_oracle (os s) (send_calls t1 - 1)"
    have lt: "send_calls (os s) < send_calls t1" and na: "\<not> is_accept ?e"
      and stt: "st = failed_send_status ?e sent"
      using p False by simp_all
    have ge: "send_calls (os s) \<le> send_calls t1 - 1" using lt by simp
    have fr: "is_send_fragment ?e" using assms(4) ge by blast
    have e: "?e = SendFail WouldBlock"
      using na fr by (cases ?e) simp_all
    have "st = Partial \<or> st = NotReady"
      using stt unfolding e by simp
    moreover have "\<not> (\<forall>i\<ge>send_calls (os s). is_accept (send_oracle (os s) i))"
      using na ge by blast
    ultimately show ?thesis by blast
  qed
qed

lemma send_retry_stream:
  assumes "outbound (os s) = pre @ take (m_sendPos packet) (framed (m_data packet))"
    and "m_sendPos packet < length (framed (m_data packet))"
    and "length (framed (m_data packet)) < 18446744073709551616"
    and "\<forall>i\<ge>send_calls (os s). is_send_fragment (send_oracle (os s) i)"
    and "\<forall>i\<ge>send_calls (os s) + n. is_accept (send_oracle (os s) i)"
  shows "\<exists>packet' s'. send_retry n packet s = Inr (Done, packet', s') \<and>
           outbound (os s') = pre @ framed (m_data packet)"
  using assms
proof (induction n arbitrary: packet s)
  case 0
  obtain st packet' s' where r: "send_packet packet s = Inr (st, packet', s')"
    using send_packet_total [OF less_imp_le [OF "0.prems"(2)] "0.prems"(3)] by blast
  have d: "st = Done"
    using send_packet_fragment [OF r "0.prems"(2,3,4)] "0.prems"(5) by simp
  have "outbound (os s') = pre @ framed (m_data packet)"
    using send_packet_resume [OF r "0.prems"(1) less_imp_le [OF "0.prems"(2)]] d "0.prems"(3)
    by simp
  then show ?case using r d by simp
next
  case (Suc n)
  obtain st packet' s' where r: "send_packet packet s = Inr (st, packet', s')"
    using send_packet_total [OF less_imp_le [OF Suc.prems(2)] Suc.prems(3)] by blast
  note f = send_packet_fragment [OF r Suc.prems(2,3,4)]
  note rs = send_packet_resume [OF r Suc.prems(1) less_imp_le [OF Suc.prems(2)]]
  show ?case
  proof (cases "st = Done")
    case True
    have "outbound (os s') = pre @ framed (m_data packet)"
      using rs True Suc.prems(3) by simp
    then show ?thesis using r True by simp
  next
    case False
    then have pn: "st = Partial \<or> st = NotReady" using f by blast
    obtain k where k: "m_sendPos packet' =
             (if st = Partial then m_sendPos packet + k
              else if st = Done then 0 else m_sendPos packet)"
      "st = Partial \<longrightarrow> 0 < k \<and> m_sendPos packet' < length (framed (m_data packet))"
      "m_data packet' = m_data packet"
      "send_oracle (os s') = send_oracle (os s)"
      "st = Partial \<or> st = NotReady \<longrightarrow> send_calls (os s) < send_calls (os s')"
      using send_packet_props [OF r] by blast
    have d: "m_data packet' = m_data packet" using k(3) .
    have o: "outbound (os s') = pre @ take (m_sendPos packet') (framed (m_data packet'))"
      using rs pn by blast
    have lt: "m_sendPos packet' < length (framed (m_data packet'))"
      using k(1,2) pn Suc.prems(2) d by auto
    have l64: "length (framed (m_data packet')) < 18446744073709551616"
      using Suc.prems(3) d by simp
    have le: "send_calls (os s) \<le> send_calls (os s')" using k(5) pn by auto
    have fr: "\<forall>i\<ge>send_calls (os s'). is_send_fragment (send_oracle (os s') i)"
      using oracle_suffix [OF Suc.prems(4) le k(4)] .
    have le2: "send_calls (os s) + Suc n \<le> send_calls (os s') + n"
      using k(5) pn by auto
    have ac: "\<forall>i\<ge>send_calls (os s') + n. is_accept (send_oracle (os s') i)"
      using oracle_suffix [OF Suc.prems(5) le2 k(4)] .
    from Suc.IH [OF o lt l64 fr ac]
    show ?thesis using r pn d by auto
  qed
qed

lemma round_trip_stream:
  assumes "length payload < 18446744073709551612"
    and "framed payload = framed delivered @ rest"
    and "length delivered < 4294967296"
    and "\<forall>i. is_send_fragment (so i)" and "\<forall>i\<ge>m. is_accept (so i)"
    and "\<forall>i. is_fragment (ro i)" and "\<forall>i\<ge>n. is_data (ro i)"
  shows "round_trip payload junk so ro m n =
           Inr (Done, framed payload, Done, delivered, rest)"
proof -
  let ?pk = "\<lparr>m_data = payload, m_sendPos = 0\<rparr>"
  let ?s = "TcpSocket_init (mock_transport ro so [])"
  have a1: "outbound (os ?s) = [] @ take (m_sendPos ?pk) (framed (m_data ?pk))"
    by (simp add: TcpSocket_init_def mock_transport_def)
  have a2: "m_sendPos ?pk < length (framed (m_data ?pk))"
    by (simp add: length_framed)
  have a3: "length (framed (m_data ?pk)) < 18446744073709551616"
    using assms(1) by (simp add: length_framed)
  have a4: "\<forall>i\<ge>send_calls (os ?s). is_send_fragment (send_oracle (os ?s) i)"
    using assms(4) by (simp add: TcpSocket_init_def mock_transport_def)
  have a5: "\<forall>i\<ge>send_calls (os ?s) + m. is_accept (send_oracle (os ?s) i)"
    using assms(5) by (simp add: TcpSocket_init_def mock_transport_def)
  obtain spacket sender where
    sr: "send_retry m ?pk ?s = Inr (Done, spacket, sender)"
    and ob0: "outbound (os sender) = [] @ framed (m_data ?pk)"
    using send_retry_stream [OF a1 a2 a3 a4 a5] by blast
  have ob: "outbound (os sender) = framed payload" using ob0 by simp
  have ob': "outbound (os sender) = framed delivered @ rest"
    using ob assms(2) by simp
  let ?rk = "\<lparr>m_data = junk, m_sendPos = 0\<rparr>"
  let ?r = "TcpSocket_init (mock_transport ro so (outbound (os sender)))"
  have b1: "pending_inv (m_pendingPacket ?r)"
    by (simp add: TcpSocket_init_def)
  have b2: "collected (m_pendingPacket ?r) @ inbound (os ?r) = framed delivered @ rest"
    using ob' by (simp add: TcpSocket_init_def mock_transport_def collected_def
        PendingPacket_init_def)
  have b4: "\<forall>i\<ge>recv_calls (os ?r). is_fragment (recv_oracle (os ?r) i)"
    using assms(6) by (simp add: TcpSocket_init_def mock_transport_def)
  have b5: "\<forall>i\<ge>recv_calls (os ?r) + n. is_data (recv_oracle (os ?r) i)"
    using assms(7) by (simp add: TcpSocket_init_def mock_transport_def)
  obtain rpacket receiver where
    rr: "receive_retry n ?rk ?r = (Done, rpacket, receiver)"
    and md: "m_data rpacket = delivered" and ib: "inbound (os receiver) = rest"
    using receive_retry_stream [OF b1 b2 assms(3) b4 b5] by blast
  show ?thesis
    unfolding round_trip_def sr using rr md ib ob by simp
qed


subsection \<open>Connecting\<close>

lemmas connect_defs = connect_def connectRaw_def select_def getpeername_def getRemoteAddress_def
  disconnect_def close_def create_def isBlocking_def setBlocking_def Let_def

text \<open>
  C5. Whatever the timeout and whatever the system calls answer, the blocking mode when
  connect returns is the mode before the call. With a zero or negative timeout the only
  system call made is the connection attempt: the mode is never set.
\<close>

theorem connect_restores_blocking:
  "m_isBlocking (snd (connect s a p timeout)) = m_isBlocking s \<and>
   (timeout \<le> 0 \<longrightarrow> trace (os (snd (connect s a p timeout))) = trace (os s) @ [SysConnect a p])"
  by (simp add: connect_defs split: option.splits select_event.splits sum.splits prod.splits)

theorem connect_restores_blocking_witness:
  "m_isBlocking (snd (connect
       (TcpSocket_init ((mock_transport (\<lambda>i. RecvData 1) (\<lambda>i. SendAccept 1) [])
          \<lparr>connect_oracle := Some WouldBlock\<rparr>)) 1 2 2500000)) = True \<and>
   (0::int) \<le> 0 \<and>
   trace (os (snd (connect
       (TcpSocket_init (mock_transport (\<lambda>i. RecvData 1) (\<lambda>i. SendAccept 1) [])) 1 2 0))) =
     [SysConnect 1 2]"
  using connect_restores_blocking
    [of "TcpSocket_init ((mock_transport (\<lambda>i. RecvData 1) (\<lambda>i. SendAccept 1) [])
          \<lparr>connect_oracle := Some WouldBlock\<rparr>)" 1 2 2500000]
    connect_restores_blocking
    [of "TcpSocket_init (mock_transport (\<lambda>i. RecvData 1) (\<lambda>i. SendAccept 1) [])" 1 2 0]
  by (simp add: TcpSocket_init_def mock_transport_def)

text \<open>
  C4, as amended. A connect call with a positive timeout whose first attempt reports
  "would block" waits only when the socket was in blocking mode: then it calls \<open>select\<close>
  once, with a \<open>timeval\<close> that is exactly the timeout (\<open>tv_sec\<close> seconds and \<open>tv_usec\<close>
  microseconds below a second), and when the wait succeeds the result is Done if the
  remote address can be retrieved and the translated error if not. In non-blocking mode
  it returns NotReady at once and makes no other system call.
\<close>

theorem connect_waits_when_blocking:
  assumes "0 < timeout" and "connect_oracle (os s) = Some e" and "getErrorStatus e = NotReady"
  shows "(m_isBlocking s \<longrightarrow>
            trace (os (snd (connect s a p timeout))) =
              trace (os s) @
              [SysSetBlocking False, SysConnect a p,
               SysSelect \<lparr>tv_sec = timeout div 1000000, tv_usec = timeout mod 1000000\<rparr>] @
              (if select_oracle (os s) = SelectReady then [SysGetPeerName] else []) @
              [SysSetBlocking True] \<and>
            (timeout div 1000000) * 1000000 + timeout mod 1000000 = timeout \<and>
            0 \<le> timeout mod 1000000 \<and> timeout mod 1000000 < 1000000 \<and>
            (select_oracle (os s) = SelectReady \<longrightarrow>
               fst (connect s a p timeout) =
                 (case getpeername_oracle (os s) of
                    Inr address \<Rightarrow> Done
                  | Inl e' \<Rightarrow> getErrorStatus e'))) \<and>
         (\<not> m_isBlocking s \<longrightarrow>
            fst (connect s a p timeout) = NotReady \<and>
            trace (os (snd (connect s a p timeout))) = trace (os s) @ [SysConnect a p])"
  using assms
  by (cases "select_oracle (os s)"; cases "getpeername_oracle (os s)")
     (simp_all add: connect_defs)

theorem connect_waits_when_blocking_witness:
  "(0::int) < 2500000 \<and>
   connect_oracle (os (TcpSocket_init ((mock_transport (\<lambda>i. RecvData 1) (\<lambda>i. SendAccept 1) [])
          \<lparr>connect_oracle := Some WouldBlock\<rparr>))) = Some WouldBlock \<and>
   getErrorStatus WouldBlock = NotReady \<and>
   m_isBlocking (TcpSocket_init ((mock_transport (\<lambda>i. RecvData 1) (\<lambda>i. SendAccept 1) [])
          \<lparr>connect_oracle := Some WouldBlock\<rparr>)) \<and>
   trace (os (snd (connect
       (TcpSocket_init ((mock_transport (\<lambda>i. RecvData 1) (\<lambda>i. SendAccept 1) [])
          \<lparr>connect_oracle := Some WouldBlock\<rparr>)) 1 2 2500000))) =
     [SysSetBlocking False, SysConnect 1 2, SysSelect \<lparr>tv_sec = 2, tv_usec = 500000\<rparr>,
      SysGetPeerName, SysSetBlocking True] \<and>
   fst (connect
       (TcpSocket_init ((mock_transport (\<lambda>i. RecvData 1) (\<lambda>i. SendAccept 1) [])
          \<lparr>connect_oracle := Some WouldBlock\<rparr>)) 1 2 2500000) = Done"
  using connect_waits_when_blocking
    [of 2500000 "TcpSocket_init ((mock_transport (\<lambda>i. RecvData 1) (\<lambda>i. SendAccept 1) [])
          \<lparr>connect_oracle := Some WouldBlock\<rparr>)" WouldBlock 1 2]
  by (simp add: TcpSocket_init_def mock_transport_def)

text \<open>
  C4 as stated fails for a socket that was in non-blocking mode: the call with a timeout
  of 2.5 seconds returns NotReady after the connection attempt alone, without a wait.
\<close>

theorem connect_nonblocking_counterexample:
  "(0::int) < 2500000 \<and>
   fst (connect
       ((TcpSocket_init ((mock_transport (\<lambda>i. RecvData 1) (\<lambda>i. SendAccept 1) [])
          \<lparr>connect_oracle := Some WouldBlock\<rparr>))\<lparr>m_isBlocking := False\<rparr>) 1 2 2500000) = NotReady \<and>
   trace (os (snd (connect
       ((TcpSocket_init ((mock_transport (\<lambda>i. RecvData 1) (\<lambda>i. SendAccept 1) [])
          \<lparr>connect_oracle := Some WouldBlock\<rparr>))\<lparr>m_isBlocking := False\<rparr>) 1 2 2500000))) =
     [SysConnect 1 2] \<and>
   SysSelect \<lparr>tv_sec = 2, tv_usec = 500000\<rparr> \<notin> set (trace (os (snd (connect
       ((TcpSocket_init ((mock_transport (\<lambda>i. RecvData 1) (\<lambda>i. SendAccept 1) [])
          \<lparr>connect_oracle := Some WouldBlock\<rparr>))\<lparr>m_isBlocking := False\<rparr>) 1 2 2500000))))"
  by (simp add: connect_defs TcpSocket_init_def mock_transport_def)


subsection \<open>The chunk receive primitive\<close>

text \<open>
  C6, as amended. The chunk receive primitive called with a null buffer returns Error
  with zero bytes and makes no transport call. Called with a non-null buffer it makes
  exactly one call of \<open>recv\<close> (the transport afterwards is the transport after that one
  call) and maps its return value \<open>r\<close>: positive to Done with that count, which is the
  number of bytes taken from the stream and at most the capacity; zero to
  Disconnected; negative to the translated status, one of NotReady, Disconnected and
  Error, with zero bytes.
\<close>

theorem receive_status_mapping:
  assumes "recv t sz = (r, bs, t1)"
  shows "receive Null sz t = (Error, 0, [], t) \<and>
         receive NonNull sz t =
           (if 0 < r then (Done, nat r, bs, t1)
            else if r = 0 then (Disconnected, 0, [], t1)
            else (getErrorStatus (errno t1), 0, [], t1)) \<and>
         recv_calls t1 = Suc (recv_calls t) \<and>
         getErrorStatus (errno t1) \<in> {NotReady, Disconnected, Error} \<and>
         (0 < r \<longrightarrow> nat r = length bs \<and> length bs \<le> sz \<and> bs @ inbound t1 = inbound t)"
  using assms recv_props[OF assms] getErrorStatus_range[of "errno t1"]
  by (simp add: receive_def)


theorem receive_status_mapping_witness:
  "recv (mock_transport (\<lambda>i. RecvData 2) (\<lambda>i. SendAccept 1) [1, 2, 3]) 4 =
     (2, [1, 2], (mock_transport (\<lambda>i. RecvData 2) (\<lambda>i. SendAccept 1) [1, 2, 3])
                   \<lparr>inbound := [3], recv_calls := 1\<rparr>) \<and>
   receive NonNull 4 (mock_transport (\<lambda>i. RecvData 2) (\<lambda>i. SendAccept 1) [1, 2, 3]) =
     (Done, 2, [1, 2], (mock_transport (\<lambda>i. RecvData 2) (\<lambda>i. SendAccept 1) [1, 2, 3])
                   \<lparr>inbound := [3], recv_calls := 1\<rparr>) \<and>
   receive NonNull 4 (mock_transport (\<lambda>i. RecvData 2) (\<lambda>i. SendAccept 1) []) =
     (Disconnected, 0, [], (mock_transport (\<lambda>i. RecvData 2) (\<lambda>i. SendAccept 1) [])
                   \<lparr>recv_calls := 1\<rparr>) \<and>
   receive NonNull 4 (mock_transport (\<lambda>i. RecvFail WouldBlock) (\<lambda>i. SendAccept 1) [1, 2, 3]) =
     (NotReady, 0, [], (mock_transport (\<lambda>i. RecvFail WouldBlock) (\<lambda>i. SendAccept 1) [1, 2, 3])
                   \<lparr>recv_calls := 1, errno := WouldBlock\<rparr>)"
proof -
  have a: "recv (mock_transport (\<lambda>i. RecvData 2) (\<lambda>i. SendAccept 1) [1, 2, 3]) 4 =
     (2, [1, 2], (mock_transport (\<lambda>i. RecvData 2) (\<lambda>i. SendAccept 1) [1, 2, 3])
                   \<lparr>inbound := [3], recv_calls := 1\<rparr>)"
    by (simp add: recv_def mock_transport_def INT_MAX_def)
  have b: "recv (mock_transport (\<lambda>i. RecvData 2) (\<lambda>i. SendAccept 1) []) 4 =
     (0, [], (mock_transport (\<lambda>i. RecvData 2) (\<lambda>i. SendAccept 1) [])\<lparr>recv_calls := 1\<rparr>)"
    by (simp add: recv_def mock_transport_def INT_MAX_def)
  have c: "recv (mock_transport (\<lambda>i. RecvFail WouldBlock) (\<lambda>i. SendAccept 1) [1, 2, 3]) 4 =
     (- 1, [], (mock_transport (\<lambda>i. RecvFail WouldBlock) (\<lambda>i. SendAccept 1) [1, 2, 3])
                   \<lparr>recv_calls := 1, errno := WouldBlock\<rparr>)"
    by (simp add: recv_def mock_transport_def)
  show ?thesis
    using a receive_status_mapping [OF a] receive_status_mapping [OF b]
      receive_status_mapping [OF c]
    by simp
qed

text \<open>
  C6 as stated fails for a null buffer: the invocation returns Error and the count of
  transport calls is still 0, not 1.
\<close>

theorem receive_null_counterexample:
  "receive Null 4 (mock_transport (\<lambda>i. RecvData 2) (\<lambda>i. SendAccept 1) [1, 2, 3]) =
     (Error, 0, [], mock_transport (\<lambda>i. RecvData 2) (\<lambda>i. SendAccept 1) [1, 2, 3]) \<and>
   recv_calls (mock_transport (\<lambda>i. RecvData 2) (\<lambda>i. SendAccept 1) [1, 2, 3]) = 0 \<and>
   recv_calls (snd (snd (snd
     (receive Null 4 (mock_transport (\<lambda>i. RecvData 2) (\<lambda>i. SendAccept 1) [1, 2, 3]))))) \<noteq> 1"
  by (simp add: receive_def mock_transport_def)

text \<open>
  C10. Only a null buffer is rejected without I/O. With a non-null buffer and capacity 0
  the transport call is still made; when it succeeds it moves 0 bytes and the result is
  Disconnected, whatever is still waiting in the stream (which is left as it was); when
  it fails the result is the translated status.
\<close>

theorem receive_zero_capacity:
  "receive Null sz t = (Error, 0, [], t) \<and>
   recv_calls (snd (snd (snd (receive NonNull 0 t)))) = Suc (recv_calls t) \<and>
   (recv_oracle t (recv_calls t) = RecvData k \<longrightarrow>
      receive NonNull 0 t = (Disconnected, 0, [], t\<lparr>recv_calls := Suc (recv_calls t)\<rparr>)) \<and>
   (recv_oracle t (recv_calls t) = RecvFail e \<longrightarrow>
      receive NonNull 0 t =
        (getErrorStatus e, 0, [], t\<lparr>recv_calls := Suc (recv_calls t), errno := e\<rparr>))"
  by (cases "recv_oracle t (recv_calls t)") (simp_all add: receive_def recv_data recv_fail)

theorem receive_zero_capacity_witness:
  "recv_oracle (mock_transport (\<lambda>i. RecvData 2) (\<lambda>i. SendAccept 1) [1, 2, 3])
     (recv_calls (mock_transport (\<lambda>i. RecvData 2) (\<lambda>i. SendAccept 1) [1, 2, 3])) = RecvData 2 \<and>
   receive NonNull 0 (mock_transport (\<lambda>i. RecvData 2) (\<lambda>i. SendAccept 1) [1, 2, 3]) =
     (Disconnected, 0, [], (mock_transport (\<lambda>i. RecvData 2) (\<lambda>i. SendAccept 1) [1, 2, 3])
        \<lparr>recv_calls := 1\<rparr>) \<and>
   inbound (snd (snd (snd
     (receive NonNull 0 (mock_transport (\<lambda>i. RecvData 2) (\<lambda>i. SendAccept 1) [1, 2, 3]))))) =
     [1, 2, 3]"
  using receive_zero_capacity
    [of 0 "mock_transport (\<lambda>i. RecvData 2) (\<lambda>i. SendAccept 1) [1, 2, 3]" 2 WouldBlock]
  by (simp add: mock_transport_def)


subsection \<open>Receiving a packet\<close>

text \<open>
  C2. A call of the message receive operation in a reachable state follows the state
  machine chunk by chunk. When the state asks for a chunk and the chunk receive returns
  a status other than Done, the call returns that status at once, with the cleared
  packet, and nothing of the socket changes but the transport: the pending packet is as
  it was. When the chunk receive returns Done, the call goes on exactly as a call from
  the state that absorbed the chunk. When the state asks for no chunk the call returns
  Done without a transport call. Hence on a whole call: if it returns Done, every
  transport call it made handed over data; if it returns another status, every call but
  the last handed over data, the last is the chunk that yielded none and gives the
  status, what the pending packet holds followed by what still waits in the stream is
  the same before and after (no byte lost or duplicated), and with no byte taken the
  pending packet is unchanged.
\<close>

theorem receive_packet_abort:
  assumes "reachable s" and "receive_packet packet s = (status, packet', s')"
  shows "(\<forall>st n bs t1.
            wants_chunk (m_pendingPacket s) \<and>
            receive NonNull (chunk_capacity (m_pendingPacket s)) (os s) = (st, n, bs, t1) \<and>
            st \<noteq> Done \<longrightarrow>
            status = st \<and> packet' = clear packet \<and> s' = s\<lparr>os := t1\<rparr>) \<and>
         (\<forall>n bs t1.
            wants_chunk (m_pendingPacket s) \<and>
            receive NonNull (chunk_capacity (m_pendingPacket s)) (os s) = (Done, n, bs, t1) \<longrightarrow>
            receive_packet packet
              (s\<lparr>m_pendingPacket := absorb (m_pendingPacket s) bs, os := t1\<rparr>) =
              (status, packet', s')) \<and>
         (\<not> wants_chunk (m_pendingPacket s) \<longrightarrow> status = Done \<and> os s' = os s) \<and>
         (status = Done \<longrightarrow>
            (\<forall>i. recv_calls (os s) \<le> i \<and> i < recv_calls (os s')
               \<longrightarrow> is_data (recv_oracle (os s) i))) \<and>
         (status \<noteq> Done \<longrightarrow>
            collected (m_pendingPacket s') @ inbound (os s') =
              collected (m_pendingPacket s) @ inbound (os s) \<and>
            (inbound (os s') = inbound (os s) \<longrightarrow> m_pendingPacket s' = m_pendingPacket s) \<and>
            recv_calls (os s) < recv_calls (os s') \<and>
            status = failed_chunk_status (recv_oracle (os s) (recv_calls (os s') - 1)) \<and>
            (\<forall>i. recv_calls (os s) \<le> i \<and> i < recv_calls (os s') - 1
               \<longrightarrow> is_data (recv_oracle (os s) i)))"
proof -
  note inv = reachable_pending_inv [OF assms(1)]
  have a: "\<forall>st n bs t1.
            wants_chunk (m_pendingPacket s) \<and>
            receive NonNull (chunk_capacity (m_pendingPacket s)) (os s) = (st, n, bs, t1) \<and>
            st \<noteq> Done \<longrightarrow>
            status = st \<and> packet' = clear packet \<and> s' = s\<lparr>os := t1\<rparr>"
    using receive_packet_chunk_abort [of s _ _ _ _ packet] assms(2) by auto
  have b: "\<forall>n bs t1.
            wants_chunk (m_pendingPacket s) \<and>
            receive NonNull (chunk_capacity (m_pendingPacket s)) (os s) = (Done, n, bs, t1) \<longrightarrow>
            receive_packet packet
              (s\<lparr>m_pendingPacket := absorb (m_pendingPacket s) bs, os := t1\<rparr>) =
              (status, packet', s')"
    using receive_packet_chunk_done [of s _ _ _ packet] assms(2) by auto
  have c: "\<not> wants_chunk (m_pendingPacket s) \<longrightarrow> status = Done \<and> os s' = os s"
    using receive_packet_no_chunk [of s packet] assms(2) by auto
  have d: "status = Done \<longrightarrow>
            (\<forall>i. recv_calls (os s) \<le> i \<and> i < recv_calls (os s')
               \<longrightarrow> is_data (recv_oracle (os s) i))"
    using receive_packet_done_props(1) [OF _ inv] assms(2) by blast
  have e: "status \<noteq> Done \<longrightarrow>
            collected (m_pendingPacket s') @ inbound (os s') =
              collected (m_pendingPacket s) @ inbound (os s) \<and>
            (inbound (os s') = inbound (os s) \<longrightarrow> m_pendingPacket s' = m_pendingPacket s) \<and>
            recv_calls (os s) < recv_calls (os s') \<and>
            status = failed_chunk_status (recv_oracle (os s) (recv_calls (os s') - 1)) \<and>
            (\<forall>i. recv_calls (os s) \<le> i \<and> i < recv_calls (os s') - 1
               \<longrightarrow> is_data (recv_oracle (os s) i))"
    using receive_packet_abort_props [OF assms(2) _ inv] by blast
  show ?thesis using a b c d e by blast
qed

theorem receive_packet_abort_witness:
  "reachable (TcpSocket_init (mock_transport (stalling_at 5) accept_all [0, 0, 0, 2, 7, 8, 5])) \<and>
   fst (receive_packet \<lparr>m_data = [9], m_sendPos = 0\<rparr>
     (TcpSocket_init (mock_transport (stalling_at 5) accept_all [0, 0, 0, 2, 7, 8, 5]))) = NotReady \<and>
   NotReady \<noteq> Done \<and>
   m_pendingPacket (snd (snd (receive_packet \<lparr>m_data = [9], m_sendPos = 0\<rparr>
     (TcpSocket_init (mock_transport (stalling_at 5) accept_all [0, 0, 0, 2, 7, 8, 5]))))) =
     \<lparr>Size = [0, 0, 0, 2], SizeReceived = 4, Data = [7]\<rparr> \<and>
   collected (m_pendingPacket (snd (snd (receive_packet \<lparr>m_data = [9], m_sendPos = 0\<rparr>
     (TcpSocket_init (mock_transport (stalling_at 5) accept_all [0, 0, 0, 2, 7, 8, 5])))))) @
   inbound (os (snd (snd (receive_packet \<lparr>m_data = [9], m_sendPos = 0\<rparr>
     (TcpSocket_init (mock_transport (stalling_at 5) accept_all [0, 0, 0, 2, 7, 8, 5])))))) =
     [0, 0, 0, 2, 7, 8, 5] \<and>
   recv_calls (os (snd (snd (receive_packet \<lparr>m_data = [9], m_sendPos = 0\<rparr>
     (TcpSocket_init (mock_transport (stalling_at 5) accept_all [0, 0, 0, 2, 7, 8, 5])))))) = 6 \<and>
   m_pendingPacket (snd (snd (receive_packet \<lparr>m_data = [9], m_sendPos = 0\<rparr>
     (TcpSocket_init (mock_transport (stalling_at 0) accept_all [0, 0, 0, 2, 7, 8, 5]))))) =
     PendingPacket_init \<and>
   fst (receive_packet \<lparr>m_data = [9], m_sendPos = 0\<rparr>
     (TcpSocket_init (mock_transport (stalling_at 9) accept_all [0, 0, 0, 2, 7, 8, 5]))) = Done \<and>
   is_data (stalling_at 9 5)"
proof -
  let ?s = "TcpSocket_init (mock_transport (stalling_at 5) accept_all [0, 0, 0, 2, 7, 8, 5])"
  let ?r = "receive_packet \<lparr>m_data = [9], m_sendPos = 0\<rparr> ?s"
  let ?sb = "TcpSocket_init (mock_transport (stalling_at 0) accept_all [0, 0, 0, 2, 7, 8, 5])"
  let ?rb = "receive_packet \<lparr>m_data = [9], m_sendPos = 0\<rparr> ?sb"
  let ?sc = "TcpSocket_init (mock_transport (stalling_at 9) accept_all [0, 0, 0, 2, 7, 8, 5])"
  let ?rc = "receive_packet \<lparr>m_data = [9], m_sendPos = 0\<rparr> ?sc"
  have reach: "reachable ?s" "reachable ?sb" "reachable ?sc"
    by (rule reachable_init, simp add: TcpSocket_init_def)+
  have st: "fst ?r = NotReady" "fst ?rb = NotReady" "fst ?rc = Done"
    by (simp_all add: eval_defs)
  have e: "?r = (fst ?r, fst (snd ?r), snd (snd ?r))" "?rb = (fst ?rb, fst (snd ?rb), snd (snd ?rb))"
    "?rc = (fst ?rc, fst (snd ?rc), snd (snd ?rc))"
    by simp_all
  have c1: "collected (m_pendingPacket (snd (snd ?r))) @ inbound (os (snd (snd ?r))) =
      [0, 0, 0, 2, 7, 8, 5]"
    using receive_packet_abort [OF reach(1) e(1)] st(1) by (simp add: eval_defs)
  have c2: "m_pendingPacket (snd (snd ?rb)) = PendingPacket_init"
    using receive_packet_abort [OF reach(2) e(2)] st(2) by (simp add: eval_defs)
  have c3: "m_pendingPacket (snd (snd ?r)) =
      \<lparr>Size = [0, 0, 0, 2], SizeReceived = 4, Data = [7]\<rparr>"
    by (simp add: eval_defs)
  have c4: "recv_calls (os (snd (snd ?r))) = 6"
    by (simp add: eval_defs)
  have c5: "recv_calls (os ?sc) = 0" "recv_calls (os (snd (snd ?rc))) = 6"
    "recv_oracle (os ?sc) = stalling_at 9"
    by (simp_all add: eval_defs)
  have c6: "is_data (stalling_at 9 5)"
    using receive_packet_abort [OF reach(3) e(3)] st(3) c5 by simp
  show ?thesis
    using reach(1) st(1,3) c1 c2 c3 c4 c6 by simp
qed

text \<open>
  C9. The message receive operation clears the caller's packet before anything else:
  the outcome does not depend on what the packet held, and whenever the status is not
  Done the packet handed back is the cleared one, with no data. What was received so far
  is in the pending packet only: together with the unread stream it is what it was before
  the call.
\<close>

theorem receive_packet_clears_packet:
  assumes "receive_packet packet s = (status, packet', s')"
  shows "receive_packet (packet\<lparr>m_data := d\<rparr>) s = (status, packet', s') \<and>
         m_sendPos packet' = m_sendPos packet \<and>
         (status \<noteq> Done \<longrightarrow>
            packet' = clear packet \<and> m_data packet' = [] \<and>
            (reachable s \<longrightarrow>
               collected (m_pendingPacket s') @ inbound (os s') =
                 collected (m_pendingPacket s) @ inbound (os s)))"
proof -
  have h: "clear (packet\<lparr>m_data := d\<rparr>) = clear packet"
    by (simp add: clear_def)
  have a: "receive_packet (packet\<lparr>m_data := d\<rparr>) s = receive_packet packet s"
    by (simp only: receive_packet_unfold h)
  have b: "m_sendPos packet' = m_sendPos packet"
    using assms by (cases rule: receive_packet_cases) (simp_all add: clear_def onReceive_def)
  have c: "status \<noteq> Done \<Longrightarrow> packet' = clear packet \<and> m_data packet' = []"
    using assms by (cases rule: receive_packet_cases) (simp_all add: clear_def)
  have e: "status \<noteq> Done \<Longrightarrow> reachable s \<Longrightarrow>
      collected (m_pendingPacket s') @ inbound (os s') =
        collected (m_pendingPacket s) @ inbound (os s)"
    using receive_packet_abort_props(1) [OF assms _ reachable_pending_inv] by blast
  show ?thesis using a b c e assms by auto
qed

theorem receive_packet_clears_packet_witness:
  "fst (receive_packet \<lparr>m_data = [9], m_sendPos = 0\<rparr>
     (TcpSocket_init (mock_transport (stalling_at 5) accept_all [0, 0, 0, 2, 7, 8, 5]))) = NotReady \<and>
   fst (snd (receive_packet \<lparr>m_data = [9], m_sendPos = 0\<rparr>
     (TcpSocket_init (mock_transport (stalling_at 5) accept_all [0, 0, 0, 2, 7, 8, 5])))) =
     \<lparr>m_data = [], m_sendPos = 0\<rparr> \<and>
   reachable (TcpSocket_init (mock_transport (stalling_at 5) accept_all [0, 0, 0, 2, 7, 8, 5])) \<and>
   collected (m_pendingPacket (snd (snd (receive_packet \<lparr>m_data = [9], m_sendPos = 0\<rparr>
     (TcpSocket_init (mock_transport (stalling_at 5) accept_all [0, 0, 0, 2, 7, 8, 5])))))) =
     [0, 0, 0, 2, 7]"
proof -
  let ?s = "TcpSocket_init (mock_transport (stalling_at 5) accept_all [0, 0, 0, 2, 7, 8, 5])"
  let ?r = "receive_packet \<lparr>m_data = [9], m_sendPos = 0\<rparr> ?s"
  have reach: "reachable ?s"
    by (rule reachable_init, simp add: TcpSocket_init_def)
  have st: "fst ?r = NotReady"
    by (simp add: eval_defs)
  have e: "?r = (fst ?r, fst (snd ?r), snd (snd ?r))"
    by simp
  have c1: "fst (snd ?r) = \<lparr>m_data = [], m_sendPos = 0\<rparr>"
    using receive_packet_clears_packet [OF e, of "[]"] st by (simp add: clear_def)
  have c2: "collected (m_pendingPacket (snd (snd ?r))) = [0, 0, 0, 2, 7]"
    by (simp add: eval_defs)
  show ?thesis
    using reach st c1 c2 by simp
qed

text \<open>
  C8. In every reachable state, the states between the chunks of one call included, the
  pending packet satisfies its invariant (no data before the 4 bytes of the size are
  there, never more data than the size announces), and so does the state after any
  further call. A call that does not complete only appends to the data, changes the data
  only if it leaves all 4 size bytes received, and leaves the size bytes as they are once
  they were complete; a call that completes resets the pending packet, and what it
  delivers has exactly the length that the 4 size bytes announce, those bytes and the
  payload being what the pending packet held followed by what was taken from the stream.
  Inside a call: a chunk never brings more than the state asked for, and the state that
  absorbed it is within the invariant; the data loop never grows the data beyond the
  size it was given and leaves the size bytes alone; the size loop leaves the data
  alone and the size bytes already received as they are.
\<close>

theorem pending_invariant:
  assumes "reachable s" and "receive_packet packet s = (status, packet', s')"
  shows "pending_inv (m_pendingPacket s) \<and> pending_inv (m_pendingPacket s') \<and>
         (status = Done \<longrightarrow> m_pendingPacket s' = PendingPacket_init) \<and>
         (status \<noteq> Done \<longrightarrow>
            (\<exists>bs. Data (m_pendingPacket s') = Data (m_pendingPacket s) @ bs) \<and>
            (Data (m_pendingPacket s') \<noteq> Data (m_pendingPacket s) \<longrightarrow>
               SizeReceived (m_pendingPacket s') = 4) \<and>
            (SizeReceived (m_pendingPacket s) = 4 \<longrightarrow>
               Size (m_pendingPacket s') = Size (m_pendingPacket s) \<and>
               SizeReceived (m_pendingPacket s') = 4)) \<and>
         (status = Done \<longrightarrow>
            (\<exists>size4. length size4 = 4 \<and>
               take (SizeReceived (m_pendingPacket s)) size4 =
                 take (SizeReceived (m_pendingPacket s)) (Size (m_pendingPacket s)) \<and>
               collected (m_pendingPacket s) @ inbound (os s) =
                 size4 @ m_data packet' @ inbound (os s') \<and>
               length (m_data packet') = ntohl size4) \<and>
            (\<exists>bs. m_data packet' = Data (m_pendingPacket s) @ bs)) \<and>
         (\<forall>n bs t1.
            wants_chunk (m_pendingPacket s) \<and>
            receive NonNull (chunk_capacity (m_pendingPacket s)) (os s) = (Done, n, bs, t1) \<longrightarrow>
            length bs \<le> chunk_capacity (m_pendingPacket s) \<and>
            pending_inv (absorb (m_pendingPacket s) bs) \<and>
            reachable (s\<lparr>m_pendingPacket := absorb (m_pendingPacket s) bs, os := t1\<rparr>)) \<and>
         (\<forall>m p0 t0 st p1 t1.
            receive_data_loop m p0 t0 = (st, p1, t1) \<and> length (Data p0) \<le> m \<longrightarrow>
            length (Data p1) \<le> m \<and> (\<exists>bs. Data p1 = Data p0 @ bs) \<and>
            Size p1 = Size p0 \<and> SizeReceived p1 = SizeReceived p0) \<and>
         (\<forall>p0 t0 st p1 t1.
            receive_size_loop p0 t0 = (st, p1, t1) \<and> pending_inv p0 \<longrightarrow>
            Data p1 = Data p0 \<and> SizeReceived p1 \<le> 4 \<and> length (Size p1) = 4 \<and>
            take (SizeReceived p0) (Size p1) = take (SizeReceived p0) (Size p0))"
proof -
  let ?p = "m_pendingPacket s"
  have inv: "pending_inv ?p" using assms(1) by (rule reachable_pending_inv)
  have inv': "pending_inv (m_pendingPacket s')"
    using receive_packet_pending_inv [OF assms(2) inv] .
  have len: "length (Size ?p) = 4" and sr4: "SizeReceived ?p \<le> 4"
    using inv by (simp_all add: pending_inv_def)
  have rest: "(status = Done \<longrightarrow> m_pendingPacket s' = PendingPacket_init) \<and>
         (status \<noteq> Done \<longrightarrow>
            (\<exists>bs. Data (m_pendingPacket s') = Data ?p @ bs) \<and>
            (Data (m_pendingPacket s') \<noteq> Data ?p \<longrightarrow> SizeReceived (m_pendingPacket s') = 4) \<and>
            (SizeReceived ?p = 4 \<longrightarrow>
               Size (m_pendingPacket s') = Size ?p \<and> SizeReceived (m_pendingPacket s') = 4))"
    using assms(2)
  proof (cases rule: receive_packet_cases)
    case (prefix_abort p1 t1)
    note sp = receive_size_loop_props [OF prefix_abort(1) len]
    have "SizeReceived ?p < 4" using sp prefix_abort(2) by auto
    then show ?thesis using sp prefix_abort(2,4) by simp
  next
    case (data_abort p1 t1 p2 t2)
    note sp = receive_size_loop_props [OF data_abort(1) len]
    note dp = receive_data_loop_props [OF data_abort(2)]
    have sr1: "SizeReceived p1 = 4" using sp sr4 by simp
    have same: "SizeReceived ?p = 4 \<longrightarrow> p1 = ?p" using sp sr1 by simp
    have "\<exists>bs. Data p2 = Data p1 @ bs"
      using append_eq_prefix [OF conjunct1 [OF dp]] dp by simp
    then have ex: "\<exists>bs. Data p2 = Data ?p @ bs" using sp by simp
    show ?thesis using ex same sr1 dp data_abort(3,5) by auto
  next
    case (complete p1 t1 p2 t2)
    then show ?thesis by simp
  qed
  have dn: "status = Done \<longrightarrow>
            (\<exists>size4. length size4 = 4 \<and>
               take (SizeReceived ?p) size4 = take (SizeReceived ?p) (Size ?p) \<and>
               collected ?p @ inbound (os s) = size4 @ m_data packet' @ inbound (os s') \<and>
               length (m_data packet') = ntohl size4) \<and>
            (\<exists>bs. m_data packet' = Data ?p @ bs)"
    using receive_packet_done_props(2,3) [OF _ inv] assms(2) by blast
  have ch: "\<forall>n bs t1.
            wants_chunk ?p \<and> receive NonNull (chunk_capacity ?p) (os s) = (Done, n, bs, t1) \<longrightarrow>
            length bs \<le> chunk_capacity ?p \<and> pending_inv (absorb ?p bs) \<and>
            reachable (s\<lparr>m_pendingPacket := absorb ?p bs, os := t1\<rparr>)"
  proof (intro allI impI)
    fix n bs t1
    assume h: "wants_chunk ?p \<and> receive NonNull (chunk_capacity ?p) (os s) = (Done, n, bs, t1)"
    then have w: "wants_chunk ?p"
      and r: "receive NonNull (chunk_capacity ?p) (os s) = (Done, n, bs, t1)" by simp_all
    have "length bs \<le> chunk_capacity ?p"
      using receive_NonNull_props(4,5) [OF r] by simp
    moreover have "pending_inv (absorb ?p bs)"
      using pending_inv_absorb [OF inv w r] .
    moreover have "reachable (s\<lparr>m_pendingPacket := absorb ?p bs, os := t1\<rparr>)"
      using reachable_chunk [OF assms(1) w r] .
    ultimately show "length bs \<le> chunk_capacity ?p \<and> pending_inv (absorb ?p bs) \<and>
            reachable (s\<lparr>m_pendingPacket := absorb ?p bs, os := t1\<rparr>)" by simp
  qed
  have dl: "\<forall>m p0 t0 st p1 t1.
            receive_data_loop m p0 t0 = (st, p1, t1) \<and> length (Data p0) \<le> m \<longrightarrow>
            length (Data p1) \<le> m \<and> (\<exists>bs. Data p1 = Data p0 @ bs) \<and>
            Size p1 = Size p0 \<and> SizeReceived p1 = SizeReceived p0"
  proof (intro allI impI)
    fix m p0 t0 st p1 t1
    assume h: "receive_data_loop m p0 t0 = (st, p1, t1) \<and> length (Data p0) \<le> m"
    then have l: "receive_data_loop m p0 t0 = (st, p1, t1)" by simp
    note dp = receive_data_loop_props [OF l]
    have "\<exists>bs. Data p1 = Data p0 @ bs"
      using append_eq_prefix [OF conjunct1 [OF dp]] dp by simp
    then show "length (Data p1) \<le> m \<and> (\<exists>bs. Data p1 = Data p0 @ bs) \<and>
            Size p1 = Size p0 \<and> SizeReceived p1 = SizeReceived p0"
      using dp h by simp
  qed
  have sl: "\<forall>p0 t0 st p1 t1.
            receive_size_loop p0 t0 = (st, p1, t1) \<and> pending_inv p0 \<longrightarrow>
            Data p1 = Data p0 \<and> SizeReceived p1 \<le> 4 \<and> length (Size p1) = 4 \<and>
            take (SizeReceived p0) (Size p1) = take (SizeReceived p0) (Size p0)"
  proof (intro allI impI)
    fix p0 t0 st p1 t1
    assume h: "receive_size_loop p0 t0 = (st, p1, t1) \<and> pending_inv p0"
    then have l: "receive_size_loop p0 t0 = (st, p1, t1)"
      and l4: "length (Size p0) = 4" and s4: "SizeReceived p0 \<le> 4"
      by (simp_all add: pending_inv_def)
    note sp = receive_size_loop_props [OF l l4]
    have b1: "length (Size p1) = 4" "SizeReceived p0 \<le> SizeReceived p1" "SizeReceived p1 \<le> 4"
      using sp s4 by simp_all
    have "take (SizeReceived p0) (take (SizeReceived p1) (Size p1) @ inbound t1) =
        take (SizeReceived p0) (take (SizeReceived p0) (Size p0) @ inbound t0)"
      using conjunct1 [OF sp] by simp
    then have "take (SizeReceived p0) (Size p1) = take (SizeReceived p0) (Size p0)"
      using b1 l4 s4 by (simp add: min_def)
    then show "Data p1 = Data p0 \<and> SizeReceived p1 \<le> 4 \<and> length (Size p1) = 4 \<and>
            take (SizeReceived p0) (Size p1) = take (SizeReceived p0) (Size p0)"
      using sp b1 by simp
  qed
  show ?thesis using inv inv' rest dn ch dl sl by blast
qed

theorem pending_invariant_witness:
  "reachable (TcpSocket_init (mock_transport (stalling_at 5) accept_all [0, 0, 0, 2, 7, 8, 5])) \<and>
   fst (receive_packet \<lparr>m_data = [9], m_sendPos = 0\<rparr>
     (TcpSocket_init (mock_transport (stalling_at 5) accept_all [0, 0, 0, 2, 7, 8, 5]))) = NotReady \<and>
   m_pendingPacket (snd (snd (receive_packet \<lparr>m_data = [9], m_sendPos = 0\<rparr>
     (TcpSocket_init (mock_transport (stalling_at 5) accept_all [0, 0, 0, 2, 7, 8, 5]))))) =
     \<lparr>Size = [0, 0, 0, 2], SizeReceived = 4, Data = [7]\<rparr> \<and>
   pending_inv \<lparr>Size = [0, 0, 0, 2], SizeReceived = 4, Data = [7]\<rparr> \<and>
   ntohl [0, 0, 0, 2] = 2 \<and>
   fst (receive_packet \<lparr>m_data = [9], m_sendPos = 0\<rparr>
     (TcpSocket_init (mock_transport byte_by_byte accept_all [0, 0, 0, 2, 7, 8, 5]))) = Done \<and>
   m_data (fst (snd (receive_packet \<lparr>m_data = [9], m_sendPos = 0\<rparr>
     (TcpSocket_init (mock_transport byte_by_byte accept_all [0, 0, 0, 2, 7, 8, 5]))))) = [7, 8] \<and>
   inbound (os (snd (snd (receive_packet \<lparr>m_data = [9], m_sendPos = 0\<rparr>
     (TcpSocket_init (mock_transport byte_by_byte accept_all [0, 0, 0, 2, 7, 8, 5])))))) = [5] \<and>
   (\<exists>size4. length size4 = 4 \<and> [0, 0, 0, 2, 7, 8, 5] = size4 @ [7, 8] @ [5] \<and>
      length [7 :: byte, 8] = ntohl size4)"
proof -
  let ?s = "TcpSocket_init (mock_transport (stalling_at 5) accept_all [0, 0, 0, 2, 7, 8, 5])"
  let ?r = "receive_packet \<lparr>m_data = [9], m_sendPos = 0\<rparr> ?s"
  let ?sb = "TcpSocket_init (mock_transport byte_by_byte accept_all [0, 0, 0, 2, 7, 8, 5])"
  let ?rb = "receive_packet \<lparr>m_data = [9], m_sendPos = 0\<rparr> ?sb"
  have reach: "reachable ?s" "reachable ?sb"
    by (rule reachable_init, simp add: TcpSocket_init_def)+
  have st: "fst ?r = NotReady" "fst ?rb = Done"
    by (simp_all add: eval_defs)
  have e: "?r = (fst ?r, fst (snd ?r), snd (snd ?r))"
    "?rb = (fst ?rb, fst (snd ?rb), snd (snd ?rb))"
    by simp_all
  have c3: "m_pendingPacket (snd (snd ?r)) =
      \<lparr>Size = [0, 0, 0, 2], SizeReceived = 4, Data = [7]\<rparr>"
    by (simp add: eval_defs)
  have c4: "pending_inv \<lparr>Size = [0, 0, 0, 2], SizeReceived = 4, Data = [7]\<rparr>"
    using pending_invariant [OF reach(1) e(1)] c3 by simp
  have c5: "ntohl [0, 0, 0, 2] = 2"
    by (simp add: ntohl_def)
  have c6: "m_data (fst (snd ?rb)) = [7, 8]" "inbound (os (snd (snd ?rb))) = [5]"
    "collected (m_pendingPacket ?sb) @ inbound (os ?sb) = [0, 0, 0, 2, 7, 8, 5]"
    by (simp_all add: eval_defs)
  have c7: "\<exists>size4. length size4 = 4 \<and> [0, 0, 0, 2, 7, 8, 5] = size4 @ [7, 8] @ [5] \<and>
      length [7 :: byte, 8] = ntohl size4"
    using pending_invariant [OF reach(2) e(2)] st(2) c6 by auto
  show ?thesis
    using reach(1) st c3 c4 c5 c6(1,2) c7 by simp
qed

text \<open>
  C7. When the size loop completes (now or in an earlier call) and the 4 bytes decode to
  0, the call returns Done with an empty packet and a reset pending packet, and the
  transport is left as the size loop left it: no chunk receive is made for the data, and
  exactly the missing bytes of the size were taken from the stream.
\<close>

theorem zero_length_message:
  assumes "reachable s"
    and "receive_size_loop (m_pendingPacket s) (os s) = (Done, p1, t1)"
    and "ntohl (Size p1) = 0"
  shows "receive_packet packet s =
           (Done, clear packet, s\<lparr>m_pendingPacket := PendingPacket_init, os := t1\<rparr>) \<and>
         m_data (clear packet) = [] \<and>
         SizeReceived p1 = 4 \<and>
         length (inbound (os s)) =
           (4 - SizeReceived (m_pendingPacket s)) + length (inbound t1)"
proof -
  let ?p = "m_pendingPacket s"
  have inv: "pending_inv ?p" using assms(1) by (rule reachable_pending_inv)
  have len: "length (Size ?p) = 4" and sr4: "SizeReceived ?p \<le> 4"
    using inv by (simp_all add: pending_inv_def)
  note sp = receive_size_loop_props [OF assms(2) len]
  have sr1: "SizeReceived p1 = 4" using sp sr4 by simp
  have b1: "length (Size p1) = 4" using sp by simp
  have "Data ?p = []"
  proof (cases "SizeReceived ?p < 4")
    case True
    then show ?thesis using inv by (simp add: pending_inv_def)
  next
    case False
    then have "SizeReceived ?p = 4" using sr4 by simp
    moreover from this have "p1 = ?p" using sp sr1 by simp
    ultimately show ?thesis using inv assms(3) by (simp add: pending_inv_def)
  qed
  then have d1: "Data p1 = []" using sp by simp
  then have dl: "receive_data_loop (ntohl (Size p1)) p1 t1 = (Done, p1, t1)"
    using assms(3) by (simp add: receive_data_loop_done)
  have r: "receive_packet packet s =
      (Done, clear packet, s\<lparr>m_pendingPacket := PendingPacket_init, os := t1\<rparr>)"
    using assms(2) dl d1 by (simp add: receive_packet_unfold)
  have l: "4 + length (inbound t1) = SizeReceived ?p + length (inbound (os s))"
    using arg_cong [OF conjunct1 [OF sp], of length] b1 len sr1 sr4 by simp
  show ?thesis using r sr1 l sr4 by (simp add: clear_def)
qed

theorem zero_length_message_witness:
  "reachable (TcpSocket_init (mock_transport byte_by_byte accept_all [0, 0, 0, 0, 9, 9])) \<and>
   fst (receive_size_loop PendingPacket_init
      (mock_transport byte_by_byte accept_all [0, 0, 0, 0, 9, 9])) = Done \<and>
   ntohl (Size (fst (snd (receive_size_loop PendingPacket_init
      (mock_transport byte_by_byte accept_all [0, 0, 0, 0, 9, 9]))))) = 0 \<and>
   fst (receive_packet \<lparr>m_data = [9], m_sendPos = 0\<rparr>
     (TcpSocket_init (mock_transport byte_by_byte accept_all [0, 0, 0, 0, 9, 9]))) = Done \<and>
   m_data (fst (snd (receive_packet \<lparr>m_data = [9], m_sendPos = 0\<rparr>
     (TcpSocket_init (mock_transport byte_by_byte accept_all [0, 0, 0, 0, 9, 9]))))) = [] \<and>
   recv_calls (os (snd (snd (receive_packet \<lparr>m_data = [9], m_sendPos = 0\<rparr>
     (TcpSocket_init (mock_transport byte_by_byte accept_all [0, 0, 0, 0, 9, 9])))))) = 4 \<and>
   inbound (os (snd (snd (receive_packet \<lparr>m_data = [9], m_sendPos = 0\<rparr>
     (TcpSocket_init (mock_transport byte_by_byte accept_all [0, 0, 0, 0, 9, 9])))))) = [9, 9]"
proof -
  let ?t = "mock_transport byte_by_byte accept_all [0, 0, 0, 0, 9, 9]"
  let ?s = "TcpSocket_init ?t"
  let ?l = "receive_size_loop PendingPacket_init ?t"
  let ?r = "receive_packet \<lparr>m_data = [9], m_sendPos = 0\<rparr> ?s"
  have reach: "reachable ?s"
    by (rule reachable_init, simp add: TcpSocket_init_def)
  have st: "fst ?l = Done"
    by (simp add: eval_defs)
  have e: "receive_size_loop (m_pendingPacket ?s) (os ?s) = (Done, fst (snd ?l), snd (snd ?l))"
    using st by (simp add: TcpSocket_init_def prod_eq_iff)
  have z: "ntohl (Size (fst (snd ?l))) = 0"
    by (simp add: eval_defs)
  have c1: "fst ?r = Done" "m_data (fst (snd ?r)) = []"
    using zero_length_message [OF reach e z, of "\<lparr>m_data = [9], m_sendPos = 0\<rparr>"]
    by (simp_all add: clear_def)
  have c2: "recv_calls (os (snd (snd ?r))) = 4" "inbound (os (snd (snd ?r))) = [9, 9]"
    by (simp_all add: eval_defs)
  show ?thesis
    using reach st z c1 c2 by simp
qed


subsection \<open>Sending\<close>





subsection \<open>C1: the round trip\<close>

text \<open>
  C1 (as amended). Round-trip identity of the message framing, for every payload whose
  length the 32-bit prefix can announce (0 \<le> L < 2^32): the sender puts the 4 bytes of L,
  most significant first, and then the payload on the wire, and the receiver delivers a
  payload identical to the original and leaves nothing of the stream, however the
  transport fragments the stream: every call of \<open>::send\<close> takes any positive number of
  bytes or reports "would block", every call of \<open>recv\<close> hands over any positive number
  of bytes or reports "would block" (one byte per call included), the two callers try
  again after Partial or NotReady, and the transports stall at most \<open>m\<close> and \<open>n\<close> times.
\<close>

theorem round_trip_identity:
  assumes "length payload < 4294967296"
    and "\<forall>i. is_send_fragment (so i)" and "\<forall>i\<ge>m. is_accept (so i)"
    and "\<forall>i. is_fragment (ro i)" and "\<forall>i\<ge>n. is_data (ro i)"
  shows "round_trip payload junk so ro m n =
           Inr (Done,
                [of_nat (length payload div 16777216), of_nat (length payload div 65536),
                 of_nat (length payload div 256), of_nat (length payload)] @ payload,
                Done, payload, [])"
proof -
  have l: "length payload < 18446744073709551612" using assms(1) by simp
  have f: "framed payload = framed payload @ []" by simp
  have w: "framed payload =
      [of_nat (length payload div 16777216), of_nat (length payload div 65536),
       of_nat (length payload div 256), of_nat (length payload)] @ payload"
    using assms(1) by (simp add: framed_def htonl_def)
  show ?thesis
    using round_trip_stream [OF l f assms(1,2,3,4,5), of junk] unfolding w .
qed

theorem round_trip_identity_witness:
  "round_trip [9, 8, 7] [1, 2] (send_stalling_at 1) (stalling_at 2) 2 3 =
     Inr (Done, [0, 0, 0, 3, 9, 8, 7], Done, [9, 8, 7], [])"
proof -
  have a: "length [9, 8, 7 :: byte] < 4294967296" by simp
  have b: "\<forall>i. is_send_fragment (send_stalling_at 1 i)"
    by (simp add: send_stalling_at_def)
  have c: "\<forall>i\<ge>2. is_accept (send_stalling_at 1 i)"
    by (simp add: send_stalling_at_def)
  have d: "\<forall>i. is_fragment (stalling_at 2 i)"
    by (simp add: stalling_at_def)
  have e: "\<forall>i\<ge>3. is_data (stalling_at 2 i)"
    by (simp add: stalling_at_def)
  show ?thesis
    using round_trip_identity [OF a b c d e, of "[1, 2]"] by simp
qed

text \<open>
  At a payload of 2^32 bytes the claim as first stated fails: the prefix is the length cut
  to 32 bits, that is 0, so the receiver delivers an empty payload and leaves the
  whole payload in the stream.
\<close>

theorem round_trip_counterexample:
  "round_trip (replicate 4294967296 0) [] accept_all byte_by_byte 0 0 =
     Inr (Done, [0, 0, 0, 0] @ replicate 4294967296 0, Done, [], replicate 4294967296 0)"
proof -
  have l: "length (replicate 4294967296 (0 :: byte)) < 18446744073709551612" by simp
  have f: "framed (replicate 4294967296 0) = framed [] @ replicate 4294967296 0"
    by (simp add: framed_def htonl_def)
  have w: "framed (replicate 4294967296 0) = [0, 0, 0, 0] @ replicate 4294967296 0"
    by (simp add: framed_def htonl_def)
  have d: "length ([] :: byte list) < 4294967296" by simp
  have a1: "\<forall>i. is_send_fragment (accept_all i)" by (simp add: accept_all_def)
  have a2: "\<forall>i\<ge>0. is_accept (accept_all i)" by (simp add: accept_all_def)
  have b1: "\<forall>i. is_fragment (byte_by_byte i)" by (simp add: byte_by_byte_def)
  have b2: "\<forall>i\<ge>0. is_data (byte_by_byte i)" by (simp add: byte_by_byte_def)
  show ?thesis
    using round_trip_stream [OF l f d a1 a2 b1 b2, of "[]"] unfolding w .
qed

end
